theory Spec2Isabelle
  imports Main "HOL-Library.Word"
begin

unbundle bit_operations_syntax

section \<open>The record codec of datastore/entry.go\<close>

text \<open>
  A shallow embedding of \<^verbatim>\<open>src/datastore/entry.go\<close>. Go's \<^verbatim>\<open>int\<close> is taken to be
  64 bits wide (every 64-bit target), so that lengths and offsets computed in \<^verbatim>\<open>int\<close>
  never overflow and are natural numbers here; every conversion to \<^verbatim>\<open>uint32\<close> and
  every \<^verbatim>\<open>uint32\<close> or \<^verbatim>\<open>uint64\<close> operation is a word operation and wraps around.
  A Go panic is a value of type \<open>panic\<close>, an \<^verbatim>\<open>error\<close> result a value of type \<open>error\<close>.
  Running out of memory in \<^verbatim>\<open>make\<close> is not modelled.
\<close>

subsection \<open>Bytes, strings, panics\<close>

type_synonym byte = "8 word"
type_synonym uint32 = "32 word"
type_synonym uint64 = "64 word"

text \<open>A Go string is a sequence of bytes; \<^verbatim>\<open>len\<close> counts bytes. The conversions
  \<^verbatim>\<open>[]byte(s)\<close> (also the implicit one of \<^verbatim>\<open>copy(dst, s)\<close>) and \<^verbatim>\<open>string(b)\<close>:\<close>

definition byte_of_char :: "char \<Rightarrow> byte" where
  "byte_of_char c = of_nat (of_char c)"

definition char_of_byte :: "byte \<Rightarrow> char" where
  "char_of_byte b = char_of (unat b)"

definition bytes_of_string :: "string \<Rightarrow> byte list" where
  "bytes_of_string s = map byte_of_char s"

definition string_of_bytes :: "byte list \<Rightarrow> string" where
  "string_of_bytes b = map char_of_byte b"

record Entry =
  key :: string
  valueType :: byte
  "value" :: string

text \<open>\<^verbatim>\<open>strconv.NumError.Err\<close>: the two errors \<^verbatim>\<open>ParseInt(s, 10, 64)\<close> can report.\<close>

datatype num_error = ErrSyntax | ErrRange

text \<open>The run-time panics of the package: an index out of range, slice bounds out of
  range, a method call on the nil operator that a lookup of an unregistered tag in
  \<^verbatim>\<open>operators\<close> yields, and the \<^verbatim>\<open>panic(err)\<close> of \<^verbatim>\<open>int64Operator.Encode\<close>.\<close>

datatype panic =
    IndexOutOfRange
  | SliceBoundsOutOfRange
  | NilDereference
  | ParsePanic num_error

definition bindE :: "'e + 'a \<Rightarrow> ('a \<Rightarrow> 'e + 'b) \<Rightarrow> 'e + 'b" where
  "bindE m f = (case m of Inl e \<Rightarrow> Inl e | Inr x \<Rightarrow> f x)"

definition TYPE_SIZE :: nat where "TYPE_SIZE = 1"
definition STRING_TYPE :: byte where "STRING_TYPE = 0"
definition INT64_TYPE :: byte where "INT64_TYPE = 1"

subsection \<open>Byte slices\<close>

text \<open>
  A buffer that the package allocates itself (\<^verbatim>\<open>make([]byte, n)\<close>, capacity \<open>n\<close>) is a
  \<open>byte list\<close>. A sub-slice \<^verbatim>\<open>res[off:]\<close> shares its storage with \<^verbatim>\<open>res\<close>: \<open>within\<close> runs a
  write on the sub-slice and returns the whole buffer.
\<close>

definition within :: "byte list \<Rightarrow> nat \<Rightarrow> (byte list \<Rightarrow> panic + byte list) \<Rightarrow> panic + byte list" where
  "within res off f =
     (if length res < off then Inl SliceBoundsOutOfRange
      else bindE (f (drop off res)) (\<lambda>t. Inr (take off res @ t)))"

text \<open>\<^verbatim>\<open>copy(dst, src)\<close> copies \<open>min (len dst) (len src)\<close> bytes and never panics.\<close>

definition copy :: "byte list \<Rightarrow> byte list \<Rightarrow> byte list" where
  "copy dst src = (let n = min (length dst) (length src) in take n src @ drop n dst)"

text \<open>\<^verbatim>\<open>res[i] = v\<close>\<close>

definition store :: "byte list \<Rightarrow> nat \<Rightarrow> byte \<Rightarrow> panic + byte list" where
  "store res i v = (if i < length res then Inr (res[i := v]) else Inl IndexOutOfRange)"

text \<open>
  A slice that the package receives (the \<^verbatim>\<open>input\<close> of \<^verbatim>\<open>Decode\<close>) has a length and a
  capacity: \<open>elems\<close> are its \<open>len\<close> bytes, \<open>spare\<close> the bytes of its backing array
  between \<open>len\<close> and \<open>cap\<close>. An index expression and \<^verbatim>\<open>s[lo:]\<close> are checked against the
  length, \<^verbatim>\<open>s[lo:hi]\<close> against the capacity.
\<close>

record slice =
  elems :: "byte list"
  spare :: "byte list"

definition len :: "slice \<Rightarrow> nat" where
  "len s = length (elems s)"

definition cap :: "slice \<Rightarrow> nat" where
  "cap s = length (elems s) + length (spare s)"

definition slice_from :: "slice \<Rightarrow> nat \<Rightarrow> panic + slice" where
  "slice_from s lo =
     (if lo \<le> len s then Inr \<lparr>elems = drop lo (elems s), spare = spare s\<rparr>
      else Inl SliceBoundsOutOfRange)"

definition slice_range :: "slice \<Rightarrow> nat \<Rightarrow> nat \<Rightarrow> panic + slice" where
  "slice_range s lo hi =
     (if hi \<le> cap s \<and> lo \<le> hi
      then Inr \<lparr>elems = take (hi - lo) (drop lo (elems s @ spare s)),
                spare = drop hi (elems s @ spare s)\<rparr>
      else Inl SliceBoundsOutOfRange)"

definition index :: "slice \<Rightarrow> nat \<Rightarrow> panic + byte" where
  "index s i = (if i < len s then Inr (elems s ! i) else Inl IndexOutOfRange)"

subsection \<open>encoding/binary: LittleEndian\<close>

text \<open>\<^verbatim>\<open>PutUint32(b, v)\<close> and \<^verbatim>\<open>PutUint64(b, v)\<close> check \<^verbatim>\<open>b[3]\<close> (\<^verbatim>\<open>b[7]\<close>) first, then store
  \<^verbatim>\<open>byte(v >> 8k)\<close> at index \<open>k\<close>.\<close>

definition PutUint32 :: "byte list \<Rightarrow> uint32 \<Rightarrow> panic + byte list" where
  "PutUint32 b v =
     (if length b < 4 then Inl IndexOutOfRange
      else Inr (b[0 := ucast v, 1 := ucast (drop_bit 8 v), 2 := ucast (drop_bit 16 v),
                  3 := ucast (drop_bit 24 v)]))"

definition PutUint64 :: "byte list \<Rightarrow> uint64 \<Rightarrow> panic + byte list" where
  "PutUint64 b v =
     (if length b < 8 then Inl IndexOutOfRange
      else Inr (b[0 := ucast v, 1 := ucast (drop_bit 8 v), 2 := ucast (drop_bit 16 v),
                  3 := ucast (drop_bit 24 v), 4 := ucast (drop_bit 32 v),
                  5 := ucast (drop_bit 40 v), 6 := ucast (drop_bit 48 v),
                  7 := ucast (drop_bit 56 v)]))"

text \<open>\<^verbatim>\<open>Uint32(b)\<close> and \<^verbatim>\<open>Uint64(b)\<close> check \<^verbatim>\<open>b[3]\<close> (\<^verbatim>\<open>b[7]\<close>) first, then or the
  shifted bytes together.\<close>

definition Uint32 :: "byte list \<Rightarrow> panic + uint32" where
  "Uint32 b =
     (if length b < 4 then Inl IndexOutOfRange
      else Inr (ucast (b ! 0) OR push_bit 8 (ucast (b ! 1)) OR push_bit 16 (ucast (b ! 2))
                OR push_bit 24 (ucast (b ! 3))))"

definition Uint64 :: "byte list \<Rightarrow> panic + uint64" where
  "Uint64 b =
     (if length b < 8 then Inl IndexOutOfRange
      else Inr (ucast (b ! 0) OR push_bit 8 (ucast (b ! 1)) OR push_bit 16 (ucast (b ! 2))
                OR push_bit 24 (ucast (b ! 3)) OR push_bit 32 (ucast (b ! 4))
                OR push_bit 40 (ucast (b ! 5)) OR push_bit 48 (ucast (b ! 6))
                OR push_bit 56 (ucast (b ! 7))))"

subsection \<open>strconv.ParseInt(s, 10, 64) and fmt.Sprintf("%d", int64)\<close>

text \<open>
  The standard library's \<^verbatim>\<open>ParseUint\<close> for base 10 and bit size 64. A byte is a digit
  (\<^verbatim>\<open>'0'\<close> = 0x30 to \<^verbatim>\<open>'9'\<close> = 0x39), a letter (valued from 10, hence refused in base 10)
  or a syntax error; the underscore is a syntax error as the base is not 0. \<open>cutoff\<close> is
  \<^verbatim>\<open>maxUint64/10 + 1\<close>, \<open>maxVal\<close> is \<^verbatim>\<open>1<<64 - 1\<close>.
\<close>

definition lower :: "byte \<Rightarrow> byte" where
  "lower c = c OR 0x20"

definition digit_of :: "byte \<Rightarrow> byte option" where
  "digit_of c =
     (if 0x30 \<le> c \<and> c \<le> 0x39 then Some (c - 0x30)
      else if 0x61 \<le> lower c \<and> lower c \<le> 0x7A then Some (lower c - 0x61 + 10)
      else None)"

definition cutoff :: uint64 where
  "cutoff = 1844674407370955162"

definition maxVal :: uint64 where
  "maxVal = 18446744073709551615"

fun ParseUint_loop :: "uint64 \<Rightarrow> byte list \<Rightarrow> num_error + uint64" where
  "ParseUint_loop n [] = Inr n"
| "ParseUint_loop n (c # cs) =
     (case digit_of c of
        None \<Rightarrow> Inl ErrSyntax
      | Some d \<Rightarrow>
          if 10 \<le> d then Inl ErrSyntax
          else if cutoff \<le> n then Inl ErrRange
          else (let n' = n * 10; n1 = n' + ucast d
                in if n1 < n' \<or> maxVal < n1 then Inl ErrRange
                   else ParseUint_loop n1 cs))"

definition ParseUint :: "string \<Rightarrow> num_error + uint64" where
  "ParseUint s = (if s = [] then Inl ErrSyntax else ParseUint_loop 0 (bytes_of_string s))"

text \<open>
  \<^verbatim>\<open>ParseInt\<close>: picks off a leading sign, converts unsigned and checks the range. After a
  range error of \<^verbatim>\<open>ParseUint\<close> (whose value is \<open>maxVal\<close>) it goes on to its own range
  check, which fails. The result is an \<^verbatim>\<open>int64\<close>, a 64-bit word read in two's
  complement (\<open>sint\<close>).
\<close>

definition ParseInt :: "string \<Rightarrow> num_error + uint64" where
  "ParseInt s =
     (if s = [] then Inl ErrSyntax
      else let neg = (hd s = CHR ''-'');
               s' = (if hd s = CHR ''+'' \<or> hd s = CHR ''-'' then tl s else s)
           in case ParseUint s' of
                Inl ErrSyntax \<Rightarrow> Inl ErrSyntax
              | r \<Rightarrow>
                  let un = (case r of Inr u \<Rightarrow> u | Inl _ \<Rightarrow> maxVal)
                  in if \<not> neg \<and> 2 ^ 63 \<le> un then Inl ErrRange
                     else if neg \<and> 2 ^ 63 < un then Inl ErrRange
                     else Inr (if neg then - un else un))"

text \<open>\<^verbatim>\<open>fmt.Sprintf("%d", i)\<close> for an \<^verbatim>\<open>int64\<close>: a minus sign when negative, then the
  decimal digits of the magnitude, most significant first, no leading zero.\<close>

fun decimal :: "nat \<Rightarrow> string" where
  "decimal n =
     (if n < 10 then [char_of (48 + n)]
      else decimal (n div 10) @ [char_of (48 + n mod 10)])"

declare decimal.simps [simp del]

definition decimal_int :: "int \<Rightarrow> string" where
  "decimal_int v = (if v < 0 then CHR ''-'' # decimal (nat (- v)) else decimal (nat v))"

definition Sprintf_d :: "uint64 \<Rightarrow> string" where
  "Sprintf_d i = decimal_int (sint i)"

subsection \<open>The tag registry\<close>

text \<open>
  \<^verbatim>\<open>typeToByte\<close> is a Go map literal with two entries. \<^verbatim>\<open>ToByte\<close> indexes it: a missing
  key yields the zero byte. \<^verbatim>\<open>ToType\<close> ranges over the map and returns the first name
  whose tag matches; Go leaves the order of a \<^verbatim>\<open>range\<close> over a map unspecified, so
  \<open>ToType\<close> takes the order of the iteration as a parameter: a list that holds the
  entries of the map, each once (\<open>iteration_order\<close>).
\<close>

definition typeToByte_entries :: "(string \<times> byte) list" where
  "typeToByte_entries = [(''string'', STRING_TYPE), (''int64'', INT64_TYPE)]"

definition typeToByte :: "string \<rightharpoonup> byte" where
  "typeToByte = map_of typeToByte_entries"

definition ToByte :: "string \<Rightarrow> byte" where
  "ToByte name = (case typeToByte name of None \<Rightarrow> 0 | Some b \<Rightarrow> b)"

definition iteration_order :: "(string \<times> byte) list \<Rightarrow> bool" where
  "iteration_order order \<longleftrightarrow>
     (order = typeToByte_entries \<or> order = rev typeToByte_entries)"

fun ToType_loop :: "(string \<times> byte) list \<Rightarrow> byte \<Rightarrow> string" where
  "ToType_loop [] val = []"
| "ToType_loop ((k, v) # kvs) val = (if v = val then k else ToType_loop kvs val)"

definition ToType :: "(string \<times> byte) list \<Rightarrow> byte \<Rightarrow> string" where
  "ToType order val = ToType_loop order val"

text \<open>The operators: an interface with two implementations, and the map from tags to
  them. A tag that is not in the map yields the nil interface value (\<open>None\<close>).\<close>

datatype typeOperator = stringOperator | int64Operator

definition operators :: "byte \<rightharpoonup> typeOperator" where
  "operators = [STRING_TYPE \<mapsto> stringOperator, INT64_TYPE \<mapsto> int64Operator]"

subsection \<open>Encode\<close>

definition encodeKey :: "Entry \<Rightarrow> nat \<Rightarrow> panic + (byte list \<times> nat)" where
  "encodeKey e vl =
     (let kl = length (key e);
          size = kl + TYPE_SIZE + vl + 12;
          res = replicate size 0
      in bindE (PutUint32 res (of_nat size)) (\<lambda>res.
         bindE (within res 4 (\<lambda>b. PutUint32 b (of_nat kl))) (\<lambda>res.
         bindE (within res 8 (\<lambda>b. Inr (copy b (bytes_of_string (key e))))) (\<lambda>res.
         Inr (res, kl + 8)))))"

definition stringOperator_Encode :: "Entry \<Rightarrow> panic + byte list" where
  "stringOperator_Encode e =
     bindE (encodeKey e (length (value e))) (\<lambda>(res, offset).
       let vl = length (value e)
       in bindE (store res offset STRING_TYPE) (\<lambda>res.
          bindE (within res (offset + TYPE_SIZE) (\<lambda>b. PutUint32 b (of_nat vl))) (\<lambda>res.
          within res (offset + TYPE_SIZE + 4) (\<lambda>b. Inr (copy b (bytes_of_string (value e)))))))"

definition int64Operator_Encode :: "Entry \<Rightarrow> panic + byte list" where
  "int64Operator_Encode e =
     bindE (encodeKey e 8) (\<lambda>(res, offset).
       case ParseInt (value e) of
         Inl err \<Rightarrow> Inl (ParsePanic err)
       | Inr i \<Rightarrow>
           bindE (store res offset INT64_TYPE) (\<lambda>res.
           within res (offset + TYPE_SIZE) (\<lambda>b. PutUint64 b i)))"

text \<open>\<^verbatim>\<open>Entry.Encode\<close>: the method call on the operator found for the entry's own tag;
  on the nil operator of an unregistered tag the call panics.\<close>

definition Encode :: "Entry \<Rightarrow> panic + byte list" where
  "Encode e =
     (case operators (valueType e) of
        None \<Rightarrow> Inl NilDereference
      | Some stringOperator \<Rightarrow> stringOperator_Encode e
      | Some int64Operator \<Rightarrow> int64Operator_Encode e)"

subsection \<open>Decode\<close>

text \<open>
  \<^verbatim>\<open>Decode\<close> writes into the entry it is given. Its result is the entry after a normal
  return (\<open>Inr\<close>), or the panic together with the entry as the panic leaves it (\<open>Inl\<close>):
  the key is assigned before the tag is looked at.
\<close>

definition stringOperator_Decode :: "slice \<Rightarrow> Entry \<Rightarrow> (panic \<times> Entry) + Entry" where
  "stringOperator_Decode input e =
     (let kl = length (key e)
      in case bindE (slice_from input (kl + TYPE_SIZE + 8)) (\<lambda>s. Uint32 (elems s)) of
           Inl p \<Rightarrow> Inl (p, e)
         | Inr vl \<Rightarrow>
             (let valBuf = replicate (unat vl) (0 :: byte)
              in case slice_range input (kl + TYPE_SIZE + 12) (kl + TYPE_SIZE + 12 + unat vl) of
                   Inl p \<Rightarrow> Inl (p, e)
                 | Inr src \<Rightarrow> Inr (e\<lparr>value := string_of_bytes (copy valBuf (elems src))\<rparr>)))"

definition int64Operator_Decode :: "slice \<Rightarrow> Entry \<Rightarrow> (panic \<times> Entry) + Entry" where
  "int64Operator_Decode input e =
     (let kl = length (key e)
      in case bindE (slice_range input (kl + TYPE_SIZE + 8) (kl + TYPE_SIZE + 16))
                (\<lambda>s. Uint64 (elems s)) of
           Inl p \<Rightarrow> Inl (p, e)
         | Inr v \<Rightarrow> Inr (e\<lparr>value := Sprintf_d v\<rparr>))"

text \<open>\<^verbatim>\<open>Entry.Decode\<close>. The key length is a \<^verbatim>\<open>uint32\<close>, so \<^verbatim>\<open>kl+8\<close> wraps around at
  \<open>2 ^ 32\<close>.\<close>

definition Decode :: "Entry \<Rightarrow> slice \<Rightarrow> (panic \<times> Entry) + Entry" where
  "Decode e input =
     (case bindE (slice_from input 4) (\<lambda>s. Uint32 (elems s)) of
        Inl p \<Rightarrow> Inl (p, e)
      | Inr kl \<Rightarrow>
          (let keyBuf = replicate (unat kl) (0 :: byte)
           in case slice_range input 8 (unat (kl + 8)) of
                Inl p \<Rightarrow> Inl (p, e)
              | Inr src \<Rightarrow>
                  (let e1 = e\<lparr>key := string_of_bytes (copy keyBuf (elems src))\<rparr>
                   in case index input (unat (kl + 8)) of
                        Inl p \<Rightarrow> Inl (p, e1)
                      | Inr typeValue \<Rightarrow>
                          (case operators typeValue of
                             None \<Rightarrow> Inl (NilDereference, e1)
                           | Some stringOperator \<Rightarrow> stringOperator_Decode input e1
                           | Some int64Operator \<Rightarrow> int64Operator_Decode input e1))))"

text \<open>A buffer as \<^verbatim>\<open>Encode\<close> returns it, or any buffer with no spare capacity.\<close>

definition buffer :: "byte list \<Rightarrow> slice" where
  "buffer bs = \<lparr>elems = bs, spare = []\<rparr>"

subsection \<open>bufio.Reader\<close>

text \<open>
  The \<^verbatim>\<open>error\<close> values the stream read can return: those of \<^verbatim>\<open>io\<close> and \<^verbatim>\<open>bufio\<close>, the
  \<^verbatim>\<open>fmt.Errorf\<close> of \<^verbatim>\<open>stringOperator.Read\<close> (bytes read, bytes expected), and any other
  error of the underlying reader.
\<close>

datatype error = EOF | ErrBufferFull | ErrNoProgress | ShortRead nat nat | IOError nat

text \<open>
  The underlying \<^verbatim>\<open>io.Reader\<close> is a script: the chunks that its \<^verbatim>\<open>Read\<close> calls will
  return, each with the error returned along with its last byte (an empty chunk with an
  error is a failing call, an empty chunk with none a call that reads nothing), then
  \<^verbatim>\<open>io.EOF\<close> for ever. A call for fewer bytes than the chunk holds takes a prefix of it.
\<close>

type_synonym source = "(byte list \<times> error option) list"

fun rd_Read :: "nat \<Rightarrow> source \<Rightarrow> (byte list \<times> error option) \<times> source" where
  "rd_Read n [] = (([], Some EOF), [])"
| "rd_Read n ((bs, eo) # rest) =
     (if length bs \<le> n then ((bs, eo), rest)
      else ((take n bs, None), (drop n bs, eo) # rest))"

text \<open>
  \<^verbatim>\<open>bufio.Reader\<close>, after the standard library: \<open>buf\<close> is the buffered data not yet
  consumed (\<^verbatim>\<open>b.buf[b.r:b.w]\<close>), \<open>buf_size\<close> is \<^verbatim>\<open>len(b.buf)\<close> (at least 16 for every
  reader that \<^verbatim>\<open>NewReaderSize\<close> makes), \<open>pending_err\<close> is \<^verbatim>\<open>b.err\<close>. \<^verbatim>\<open>fill\<close> moves the data
  to the front of the buffer and reads once more into the free space, trying up to 100
  times while the reads are empty; its callers never call it on a full buffer.
\<close>

record Reader =
  buf :: "byte list"
  buf_size :: nat
  pending_err :: "error option"
  rd :: source

fun fill_loop :: "nat \<Rightarrow> Reader \<Rightarrow> Reader" where
  "fill_loop 0 b = b\<lparr>pending_err := Some ErrNoProgress\<rparr>"
| "fill_loop (Suc i) b =
     (case rd_Read (buf_size b - length (buf b)) (rd b) of
        ((bs, eo), rest) \<Rightarrow>
          (let b' = b\<lparr>buf := buf b @ bs, rd := rest\<rparr>
           in case eo of
                Some e \<Rightarrow> b'\<lparr>pending_err := Some e\<rparr>
              | None \<Rightarrow> if bs \<noteq> [] then b' else fill_loop i b'))"

definition fill :: "Reader \<Rightarrow> Reader" where
  "fill b = fill_loop 100 b"

lemma fill_loop_buf_size [simp]: "buf_size (fill_loop i b) = buf_size b"
  by (induction i arbitrary: b) (auto simp: Let_def split: prod.splits option.splits)

lemma fill_loop_progress:
  "pending_err (fill_loop i b) = None \<Longrightarrow> length (buf b) < length (buf (fill_loop i b))"
proof (induction i arbitrary: b)
  case 0
  then show ?case by simp
next
  case (Suc i)
  obtain bs eo rest where r: "rd_Read (buf_size b - length (buf b)) (rd b) = ((bs, eo), rest)"
    by (metis prod.exhaust)
  show ?case
  proof (cases eo)
    case (Some e)
    with Suc.prems r show ?thesis by (simp add: Let_def)
  next
    case None
    show ?thesis
    proof (cases "bs = []")
      case True
      with Suc.prems r None
      have "pending_err (fill_loop i (b\<lparr>buf := buf b @ bs, rd := rest\<rparr>)) = None"
        by (simp add: Let_def)
      from Suc.IH [OF this] r None True show ?thesis by (simp add: Let_def)
    next
      case False
      with r None show ?thesis by (simp add: Let_def)
    qed
  qed
qed

text \<open>\<^verbatim>\<open>Peek(n)\<close>: fills until \<open>n\<close> bytes are buffered, the buffer is full or an error is
  pending; returns the next \<open>n\<close> bytes without consuming them, or fewer with an error.\<close>

function peek_loop :: "nat \<Rightarrow> Reader \<Rightarrow> Reader" where
  "peek_loop n b =
     (if length (buf b) < n \<and> length (buf b) < buf_size b \<and> pending_err b = None
      then peek_loop n (fill b) else b)"
  by pat_completeness auto
termination
proof (relation "measure (\<lambda>(n, b). if pending_err b = None then Suc (buf_size b - length (buf b)) else 0)")
  show "wf (measure (\<lambda>(n, b). if pending_err b = None then Suc (buf_size b - length (buf b)) else 0))"
    by simp
next
  fix n :: nat and b :: Reader
  assume a: "length (buf b) < n \<and> length (buf b) < buf_size b \<and> pending_err b = None"
  show "((n, fill b), (n, b)) \<in> measure (\<lambda>(n, b). if pending_err b = None then Suc (buf_size b - length (buf b)) else 0)"
  proof (cases "pending_err (fill b) = None")
    case True
    then have "length (buf b) < length (buf (fill b))"
      unfolding fill_def by (rule fill_loop_progress)
    with a True show ?thesis by (simp add: fill_def) linarith
  next
    case False
    with a show ?thesis by auto
  qed
qed

declare peek_loop.simps [simp del]

definition Peek :: "nat \<Rightarrow> Reader \<Rightarrow> (byte list \<times> error option) \<times> Reader" where
  "Peek n b =
     (let b1 = peek_loop n b
      in if buf_size b1 < n then ((buf b1, Some ErrBufferFull), b1)
         else if length (buf b1) < n
              then ((buf b1, Some (case pending_err b1 of Some e \<Rightarrow> e | None \<Rightarrow> ErrBufferFull)),
                    b1\<lparr>pending_err := None\<rparr>)
              else ((take n (buf b1), None), b1))"

text \<open>\<^verbatim>\<open>Discard(n)\<close>: consumes buffered bytes, filling when the buffer is empty, until
  \<open>n\<close> bytes are skipped or an error is pending. One round of its loop is
  \<open>discard_step\<close>.\<close>

definition discard_step :: "nat \<Rightarrow> Reader \<Rightarrow> nat \<times> Reader" where
  "discard_step remain b =
     (let b1 = (if buf b = [] then fill b else b);
          skip = min (length (buf b1)) remain
      in (remain - skip, b1\<lparr>buf := drop skip (buf b1)\<rparr>))"

lemma discard_step_less:
  assumes "discard_step remain b = (remain', b2)" "remain' \<noteq> 0" "pending_err b2 = None"
  shows "remain' < remain"
proof -
  define b1 where "b1 = (if buf b = [] then fill b else b)"
  have r: "remain' = remain - min (length (buf b1)) remain"
    and p: "pending_err b1 = None"
    using assms(1,3) by (auto simp: discard_step_def Let_def b1_def)
  have "buf b1 \<noteq> []"
  proof (cases "buf b = []")
    case True
    with p have "pending_err (fill_loop 100 b) = None"
      by (simp add: b1_def fill_def)
    then have "length (buf b) < length (buf (fill_loop 100 b))"
      by (rule fill_loop_progress)
    with True show ?thesis by (auto simp: b1_def fill_def)
  next
    case False
    then show ?thesis by (simp add: b1_def)
  qed
  then have "0 < length (buf b1)" by simp
  with r assms(2) show ?thesis by (simp add: min_def split: if_splits)
qed

function discard_loop :: "nat \<Rightarrow> Reader \<Rightarrow> nat \<times> Reader" where
  "discard_loop remain b =
     (case discard_step remain b of
        (remain', b2) \<Rightarrow>
          if remain' = 0 then (0, b2)
          else if pending_err b2 \<noteq> None then (remain', b2)
          else discard_loop remain' b2)"
  by pat_completeness auto
termination
proof (relation "measure fst")
  show "wf (measure fst)" by simp
next
  fix remain :: nat and b :: Reader and remain' :: nat and b2 :: Reader
  assume a: "(remain', b2) = discard_step remain b" "remain' \<noteq> 0" "\<not> pending_err b2 \<noteq> None"
  from a(1) have "discard_step remain b = (remain', b2)" by simp
  from discard_step_less [OF this a(2)] a(3)
  show "((remain', b2), (remain, b)) \<in> measure fst" by simp
qed

declare discard_loop.simps [simp del]

definition Discard :: "nat \<Rightarrow> Reader \<Rightarrow> (nat \<times> error option) \<times> Reader" where
  "Discard n b =
     (if n = 0 then ((0, None), b)
      else case discard_loop n b of
             (remain, b') \<Rightarrow>
               if remain = 0 then ((n, None), b')
               else ((n - remain, pending_err b'), b'\<lparr>pending_err := None\<rparr>))"

text \<open>\<^verbatim>\<open>Read(p)\<close> with \<open>len(p) = n\<close>: returns buffered bytes if there are any, otherwise
  the bytes of at most one \<^verbatim>\<open>Read\<close> of the underlying reader (into \<^verbatim>\<open>p\<close> itself when \<^verbatim>\<open>p\<close>
  is at least as large as the buffer); so it may return fewer than \<open>n\<close> bytes.\<close>

definition Reader_Read :: "nat \<Rightarrow> Reader \<Rightarrow> (byte list \<times> error option) \<times> Reader" where
  "Reader_Read n b =
     (if n = 0
      then (if buf b \<noteq> [] then (([], None), b)
            else (([], pending_err b), b\<lparr>pending_err := None\<rparr>))
      else if buf b = []
      then (if pending_err b \<noteq> None then (([], pending_err b), b\<lparr>pending_err := None\<rparr>)
            else if buf_size b \<le> n
            then (case rd_Read n (rd b) of ((bs, eo), rest) \<Rightarrow> ((bs, eo), b\<lparr>rd := rest\<rparr>))
            else (case rd_Read (buf_size b) (rd b) of
                    ((bs, eo), rest) \<Rightarrow>
                      if bs = [] then (([], eo), b\<lparr>rd := rest\<rparr>)
                      else ((take n bs, None),
                            b\<lparr>buf := drop n bs, pending_err := eo, rd := rest\<rparr>)))
      else ((take n (buf b), None), b\<lparr>buf := drop n (buf b)\<rparr>))"

subsection \<open>The stream read\<close>

text \<open>
  The outcome of a call that reads from the reader: a result, an \<^verbatim>\<open>error\<close>, or a panic.
  The reader after the call is returned beside it.
\<close>

datatype 'a outcome = Ok 'a | Err error | Panicking panic

record "output" =
  output_valueType :: string
  output_value :: string

definition stringOperator_Read :: "Reader \<Rightarrow> string outcome \<times> Reader" where
  "stringOperator_Read in0 =
     (case Peek 4 in0 of
        ((header, Some e), in1) \<Rightarrow> (Err e, in1)
      | ((header, None), in1) \<Rightarrow>
          (case Uint32 header of
             Inl p \<Rightarrow> (Panicking p, in1)
           | Inr w \<Rightarrow>
               (let valSize = unat w
                in case Discard 4 in1 of
                     ((d, Some e), in2) \<Rightarrow> (Err e, in2)
                   | ((d, None), in2) \<Rightarrow>
                       (let data = replicate valSize (0 :: byte)
                        in case Reader_Read valSize in2 of
                             ((bs, Some e), in3) \<Rightarrow> (Err e, in3)
                           | ((bs, None), in3) \<Rightarrow>
                               if length bs \<noteq> valSize
                               then (Err (ShortRead (length bs) valSize), in3)
                               else (Ok (string_of_bytes (copy data bs)), in3)))))"

definition int64Operator_Read :: "Reader \<Rightarrow> string outcome \<times> Reader" where
  "int64Operator_Read in0 =
     (case Peek 8 in0 of
        ((data, Some e), in1) \<Rightarrow> (Err e, in1)
      | ((data, None), in1) \<Rightarrow>
          (case Uint64 data of
             Inl p \<Rightarrow> (Panicking p, in1)
           | Inr w \<Rightarrow> (Ok (Sprintf_d w), in1)))"

definition operator_Read :: "typeOperator \<Rightarrow> Reader \<Rightarrow> string outcome \<times> Reader" where
  "operator_Read operator in0 =
     (case operator of
        stringOperator \<Rightarrow> stringOperator_Read in0
      | int64Operator \<Rightarrow> int64Operator_Read in0)"

text \<open>
  \<^verbatim>\<open>readValue\<close>. The slice \<^verbatim>\<open>valueType\<close> that \<^verbatim>\<open>Peek(1)\<close> returns is a view of the reader's
  buffer, and \<^verbatim>\<open>valueType[0]\<close> is read a second time after \<^verbatim>\<open>operator.Read\<close>, which may
  have refilled that buffer: \<open>late\<close> is the byte found there then (the tag itself when
  the buffer was not refilled). \<open>order\<close> is the iteration order of \<^verbatim>\<open>ToType\<close>.
\<close>

definition readValue :: "(string \<times> byte) list \<Rightarrow> byte \<Rightarrow> Reader \<Rightarrow> output outcome \<times> Reader" where
  "readValue order late in0 =
     (case Peek 8 in0 of
        ((header, Some e), in1) \<Rightarrow> (Err e, in1)
      | ((header, None), in1) \<Rightarrow>
          (case (if length header < 4 then Inl SliceBoundsOutOfRange else Uint32 (drop 4 header)) of
             Inl p \<Rightarrow> (Panicking p, in1)
           | Inr w \<Rightarrow>
               (let keySize = unat w
                in case Discard (keySize + 8) in1 of
                     ((d, Some e), in2) \<Rightarrow> (Err e, in2)
                   | ((d, None), in2) \<Rightarrow>
                       (case Peek 1 in2 of
                          ((vt, Some e), in3) \<Rightarrow> (Err e, in3)
                        | ((vt, None), in3) \<Rightarrow>
                            (case Discard 1 in3 of
                               ((d', Some e), in4) \<Rightarrow> (Err e, in4)
                             | ((d', None), in4) \<Rightarrow>
                                 (case vt of
                                    [] \<Rightarrow> (Panicking IndexOutOfRange, in4)
                                  | t # ts \<Rightarrow>
                                      (case operators t of
                                         None \<Rightarrow> (Panicking NilDereference, in4)
                                       | Some operator \<Rightarrow>
                                           (case operator_Read operator in4 of
                                              (Err e, in5) \<Rightarrow> (Err e, in5)
                                            | (Panicking p, in5) \<Rightarrow> (Panicking p, in5)
                                            | (Ok data, in5) \<Rightarrow>
                                                (Ok \<lparr>output_valueType = ToType order late,
                                                     output_value = data\<rparr>, in5)))))))))"

text \<open>The cursor of a reader is where its unread bytes start: the buffered bytes, then
  those the underlying reader has still to deliver.\<close>

definition unread :: "Reader \<Rightarrow> byte list" where
  "unread b = buf b @ concat (map fst (rd b))"

text \<open>The buffer of a record that \<^verbatim>\<open>Encode\<close> accepts; a STRING record whose lengths fit
  the 4-byte length fields; and a scan: consecutive calls of \<^verbatim>\<open>readValue\<close> on one
  reader, as long as they succeed (\<open>None\<close> when one of them fails).\<close>

definition encoded :: "Entry \<Rightarrow> byte list" where
  "encoded r = (case Encode r of Inr bs \<Rightarrow> bs | Inl p \<Rightarrow> [])"

definition string_record :: "Entry \<Rightarrow> bool" where
  "string_record r \<longleftrightarrow>
     valueType r = STRING_TYPE \<and> length (key r) < 2 ^ 32 \<and> length (value r) < 2 ^ 32"

fun scan :: "((string \<times> byte) list \<times> byte) list \<Rightarrow> Reader \<Rightarrow> (output list \<times> Reader) option" where
  "scan [] b = Some ([], b)"
| "scan ((order, late) # calls) b =
     (case readValue order late b of
        (Ok out, b1) \<Rightarrow>
          (case scan calls b1 of
             None \<Rightarrow> None
           | Some (outs, b') \<Rightarrow> Some (out # outs, b'))
      | (Err e, b1) \<Rightarrow> None
      | (Panicking p, b1) \<Rightarrow> None)"

subsection \<open>The wire layout\<close>

text \<open>The bytes that \<^verbatim>\<open>PutUint32\<close> and \<^verbatim>\<open>PutUint64\<close> store, and the layout of an encoded
  STRING and INT64 record: total size, key length, key, tag, then the length-prefixed
  value, or the eight bytes of the integer and four bytes that are never written.\<close>

definition le32 :: "uint32 \<Rightarrow> byte list" where
  "le32 v = [ucast v, ucast (drop_bit 8 v), ucast (drop_bit 16 v), ucast (drop_bit 24 v)]"

definition le64 :: "uint64 \<Rightarrow> byte list" where
  "le64 v = [ucast v, ucast (drop_bit 8 v), ucast (drop_bit 16 v), ucast (drop_bit 24 v),
             ucast (drop_bit 32 v), ucast (drop_bit 40 v), ucast (drop_bit 48 v), ucast (drop_bit 56 v)]"

definition wire_string :: "Entry \<Rightarrow> byte list" where
  "wire_string e =
     le32 (of_nat (length (key e) + length (value e) + 13)) @ le32 (of_nat (length (key e)))
     @ bytes_of_string (key e) @ [STRING_TYPE] @ le32 (of_nat (length (value e)))
     @ bytes_of_string (value e)"

definition wire_int64 :: "Entry \<Rightarrow> uint64 \<Rightarrow> byte list" where
  "wire_int64 e i =
     le32 (of_nat (length (key e) + 21)) @ le32 (of_nat (length (key e)))
     @ bytes_of_string (key e) @ [INT64_TYPE] @ le64 i @ [0, 0, 0, 0]"

text \<open>An outcome of \<^verbatim>\<open>Decode\<close> that is an index or slice-bounds panic.\<close>

definition bounds_panic :: "(panic \<times> Entry) + Entry \<Rightarrow> bool" where
  "bounds_panic res =
     (case res of
        Inl (p, e') \<Rightarrow> p = IndexOutOfRange \<or> p = SliceBoundsOutOfRange
      | Inr e' \<Rightarrow> False)"

text \<open>The zero value of \<^verbatim>\<open>Entry\<close>: what \<^verbatim>\<open>Entry{}\<close> or \<^verbatim>\<open>new(Entry)\<close> holds.\<close>

definition zero_Entry :: Entry where
  "zero_Entry = \<lparr>key = [], valueType = 0, value = []\<rparr>"

section \<open>Properties\<close>

subsection \<open>Encode builds the wire layout\<close>

lemma bindE_simps [simp]: "bindE (Inr x) f = f x" "bindE (Inl e) f = Inl e"
  by (simp_all add: bindE_def)

lemma char_of_byte_of_char [simp]: "char_of_byte (byte_of_char c) = c"
  by (simp add: byte_of_char_def char_of_byte_def unat_of_nat)

lemma string_of_bytes_of_string [simp]: "string_of_bytes (bytes_of_string s) = s"
  by (simp add: string_of_bytes_def bytes_of_string_def comp_def)

lemma length_bytes_of_string [simp]: "length (bytes_of_string s) = length s"
  by (simp add: bytes_of_string_def)

lemma length_le32 [simp]: "length (le32 v) = 4"
  by (simp add: le32_def)

lemma length_le64 [simp]: "length (le64 v) = 8"
  by (simp add: le64_def)

lemma PutUint32_eq: "4 \<le> length b \<Longrightarrow> PutUint32 b v = Inr (le32 v @ drop 4 b)"
  apply (simp add: PutUint32_def le32_def)
  apply (rule nth_equalityI)
   apply simp
  apply (auto simp: nth_list_update nth_Cons' nth_append)
  done

lemma PutUint64_eq: "8 \<le> length b \<Longrightarrow> PutUint64 b v = Inr (le64 v @ drop 8 b)"
  apply (simp add: PutUint64_def le64_def)
  apply (rule nth_equalityI)
   apply simp
  apply (auto simp: nth_list_update nth_Cons' nth_append)
  done

lemma within_append: "length xs = off \<Longrightarrow> within (xs @ ys) off f = bindE (f ys) (\<lambda>t. Inr (xs @ t))"
  by (simp add: within_def)

lemma copy_prefix: "length src \<le> length dst \<Longrightarrow> copy dst src = src @ drop (length src) dst"
  by (simp add: copy_def Let_def min_def)

lemma store_append: "store (xs @ y # ys) (length xs) v = Inr (xs @ v # ys)"
  by (simp add: store_def)

lemma replicate_add5: "replicate (n + 5) x = x # replicate (n + 4) x"
proof -
  have "n + 5 = Suc (n + 4)" by simp
  then show ?thesis by (simp only: replicate_Suc)
qed

lemma encodeKey_eq:
  "encodeKey e vl =
     Inr (le32 (of_nat (length (key e) + vl + 13)) @ le32 (of_nat (length (key e)))
          @ bytes_of_string (key e) @ replicate (vl + 5) 0, length (key e) + 8)"
proof -
  define kl where "kl = length (key e)"
  define s :: uint32 where "s = of_nat (kl + vl + 13)"
  define k :: uint32 where "k = of_nat kl"
  define kb where "kb = bytes_of_string (key e)"
  have lkb: "length kb = kl" by (simp add: kb_def kl_def)
  have size: "kl + TYPE_SIZE + vl + 12 = kl + vl + 13"
    by (simp add: TYPE_SIZE_def)
  have s1: "PutUint32 (replicate (kl + vl + 13) 0) s = Inr (le32 s @ replicate (kl + vl + 9) 0)"
    by (simp add: PutUint32_eq)
  have s2: "within (le32 s @ replicate (kl + vl + 9) 0) 4 (\<lambda>b. PutUint32 b k)
            = Inr (le32 s @ le32 k @ replicate (kl + vl + 5) 0)"
    by (simp add: within_append PutUint32_eq)
  have "within ((le32 s @ le32 k) @ replicate (kl + vl + 5) 0) 8 (\<lambda>b. Inr (copy b kb))
            = Inr ((le32 s @ le32 k) @ kb @ replicate (vl + 5) 0)"
    by (subst within_append) (simp_all add: copy_prefix lkb)
  then have s3: "within (le32 s @ le32 k @ replicate (kl + vl + 5) 0) 8 (\<lambda>b. Inr (copy b kb))
            = Inr (le32 s @ le32 k @ kb @ replicate (vl + 5) 0)"
    by simp
  have "encodeKey e vl = Inr (le32 s @ le32 k @ kb @ replicate (vl + 5) 0, kl + 8)"
    unfolding encodeKey_def Let_def kl_def [symmetric] size s_def [symmetric] k_def [symmetric]
      kb_def [symmetric]
    by (simp only: s1 s2 s3 bindE_simps)
  then show ?thesis
    by (simp only: s_def k_def kb_def kl_def)
qed

lemma stringOperator_Encode_eq: "stringOperator_Encode e = Inr (wire_string e)"
proof -
  define kl where "kl = length (key e)"
  define vl where "vl = length (value e)"
  define s :: uint32 where "s = of_nat (kl + vl + 13)"
  define k :: uint32 where "k = of_nat kl"
  define v :: uint32 where "v = of_nat vl"
  define kb where "kb = bytes_of_string (key e)"
  define vb where "vb = bytes_of_string (value e)"
  define hd where "hd = le32 s @ le32 k @ kb"
  have lkb: "length kb = kl" and lvb: "length vb = vl" by (simp_all add: kb_def kl_def vb_def vl_def)
  have lhd: "length hd = kl + 8" by (simp add: hd_def lkb)
  have ek: "encodeKey e vl = Inr (hd @ replicate (vl + 5) 0, kl + 8)"
    by (simp add: encodeKey_eq hd_def s_def k_def kb_def kl_def vl_def)
  have t1: "store (hd @ replicate (vl + 5) 0) (kl + 8) STRING_TYPE
            = Inr (hd @ STRING_TYPE # replicate (vl + 4) 0)"
    using store_append [of hd 0 "replicate (vl + 4) 0" STRING_TYPE]
    by (simp only: replicate_add5 lhd)
  have "within ((hd @ [STRING_TYPE]) @ replicate (vl + 4) 0) (kl + 8 + TYPE_SIZE) (\<lambda>b. PutUint32 b v)
            = Inr ((hd @ [STRING_TYPE]) @ le32 v @ replicate vl 0)"
    by (subst within_append) (simp_all add: lhd TYPE_SIZE_def PutUint32_eq)
  then have t2: "within (hd @ STRING_TYPE # replicate (vl + 4) 0) (kl + 8 + TYPE_SIZE) (\<lambda>b. PutUint32 b v)
            = Inr (hd @ STRING_TYPE # le32 v @ replicate vl 0)"
    by simp
  have "within ((hd @ STRING_TYPE # le32 v) @ replicate vl 0) (kl + 8 + TYPE_SIZE + 4) (\<lambda>b. Inr (copy b vb))
            = Inr ((hd @ STRING_TYPE # le32 v) @ vb)"
    by (subst within_append) (simp_all add: lhd TYPE_SIZE_def copy_prefix lvb)
  then have t3: "within (hd @ STRING_TYPE # le32 v @ replicate vl 0) (kl + 8 + TYPE_SIZE + 4) (\<lambda>b. Inr (copy b vb))
            = Inr (hd @ STRING_TYPE # le32 v @ vb)"
    by simp
  have "stringOperator_Encode e = Inr (hd @ STRING_TYPE # le32 v @ vb)"
    unfolding stringOperator_Encode_def Let_def vl_def [symmetric] v_def [symmetric] vb_def [symmetric]
    by (simp only: ek bindE_simps prod.case t1 t2 t3)
  then show ?thesis
    by (simp add: wire_string_def hd_def s_def k_def v_def kb_def vb_def kl_def vl_def)
qed

lemma int64Operator_Encode_eq:
  "int64Operator_Encode e =
     (case ParseInt (value e) of Inl err \<Rightarrow> Inl (ParsePanic err) | Inr i \<Rightarrow> Inr (wire_int64 e i))"
proof (cases "ParseInt (value e)")
  case (Inl err)
  then show ?thesis by (simp add: int64Operator_Encode_def encodeKey_eq)
next
  case (Inr i)
  define kl where "kl = length (key e)"
  define hd where "hd = le32 (of_nat (kl + 8 + 13)) @ le32 (of_nat kl) @ bytes_of_string (key e)"
  have lhd: "length hd = kl + 8" by (simp add: hd_def kl_def)
  have ek: "encodeKey e 8 = Inr (hd @ replicate (8 + 5) 0, kl + 8)"
    by (simp only: encodeKey_eq hd_def kl_def append_assoc)
  have t1: "store (hd @ replicate (8 + 5) 0) (kl + 8) INT64_TYPE
            = Inr (hd @ INT64_TYPE # replicate (8 + 4) 0)"
    using store_append [of hd 0 "replicate (8 + 4) 0" INT64_TYPE]
    by (simp only: replicate_add5 lhd)
  have "within ((hd @ [INT64_TYPE]) @ replicate (8 + 4) 0) (kl + 8 + TYPE_SIZE) (\<lambda>b. PutUint64 b i)
            = Inr ((hd @ [INT64_TYPE]) @ le64 i @ replicate 4 0)"
    by (subst within_append) (simp_all add: lhd TYPE_SIZE_def PutUint64_eq)
  then have t2: "within (hd @ INT64_TYPE # replicate (8 + 4) 0) (kl + 8 + TYPE_SIZE) (\<lambda>b. PutUint64 b i)
            = Inr (hd @ INT64_TYPE # le64 i @ replicate 4 0)"
    by simp
  have "int64Operator_Encode e = Inr (hd @ INT64_TYPE # le64 i @ replicate 4 0)"
    unfolding int64Operator_Encode_def
    by (simp only: ek bindE_simps prod.case Inr sum.case t1 t2)
  then show ?thesis
    by (simp add: Inr wire_int64_def hd_def kl_def numeral_eq_Suc)
qed

subsection \<open>Decode reads the wire layout\<close>

lemma word32_of_bytes:
  "(ucast (ucast v :: byte) OR push_bit 8 (ucast (ucast (drop_bit 8 v) :: byte))
     OR push_bit 16 (ucast (ucast (drop_bit 16 v) :: byte))
     OR push_bit 24 (ucast (ucast (drop_bit 24 v) :: byte))) = (v :: uint32)"
proof (rule bit_word_eqI)
  fix n :: nat
  assume "n < LENGTH(32)"
  then consider "n < 8" | "8 \<le> n" "n < 16" | "16 \<le> n" "n < 24" | "24 \<le> n" "n < 32"
    by fastforce
  then show "bit (ucast (ucast v :: byte) OR push_bit 8 (ucast (ucast (drop_bit 8 v) :: byte))
     OR push_bit 16 (ucast (ucast (drop_bit 16 v) :: byte))
     OR push_bit 24 (ucast (ucast (drop_bit 24 v) :: byte)) :: uint32) n = bit v n"
    by cases (auto simp: bit_simps)
qed

lemma word64_of_bytes:
  "(ucast (ucast v :: byte) OR push_bit 8 (ucast (ucast (drop_bit 8 v) :: byte))
     OR push_bit 16 (ucast (ucast (drop_bit 16 v) :: byte))
     OR push_bit 24 (ucast (ucast (drop_bit 24 v) :: byte))
     OR push_bit 32 (ucast (ucast (drop_bit 32 v) :: byte))
     OR push_bit 40 (ucast (ucast (drop_bit 40 v) :: byte))
     OR push_bit 48 (ucast (ucast (drop_bit 48 v) :: byte))
     OR push_bit 56 (ucast (ucast (drop_bit 56 v) :: byte))) = (v :: uint64)"
proof (rule bit_word_eqI)
  fix n :: nat
  assume "n < LENGTH(64)"
  then consider "n < 8" | "8 \<le> n" "n < 16" | "16 \<le> n" "n < 24" | "24 \<le> n" "n < 32"
    | "32 \<le> n" "n < 40" | "40 \<le> n" "n < 48" | "48 \<le> n" "n < 56" | "56 \<le> n" "n < 64"
    by fastforce
  then show "bit (ucast (ucast v :: byte) OR push_bit 8 (ucast (ucast (drop_bit 8 v) :: byte))
     OR push_bit 16 (ucast (ucast (drop_bit 16 v) :: byte))
     OR push_bit 24 (ucast (ucast (drop_bit 24 v) :: byte))
     OR push_bit 32 (ucast (ucast (drop_bit 32 v) :: byte))
     OR push_bit 40 (ucast (ucast (drop_bit 40 v) :: byte))
     OR push_bit 48 (ucast (ucast (drop_bit 48 v) :: byte))
     OR push_bit 56 (ucast (ucast (drop_bit 56 v) :: byte)) :: uint64) n = bit v n"
    by cases (auto simp: bit_simps)
qed

lemma Uint32_le32: "Uint32 (le32 v @ rest) = Inr v"
  by (simp add: Uint32_def le32_def word32_of_bytes)

lemma Uint64_le64: "Uint64 (le64 v @ rest) = Inr v"
  by (simp add: Uint64_def le64_def word64_of_bytes)

lemma slice_from_append:
  "length xs = lo \<Longrightarrow> slice_from \<lparr>elems = xs @ ys, spare = sp\<rparr> lo = Inr \<lparr>elems = ys, spare = sp\<rparr>"
  by (simp add: slice_from_def len_def)

lemma slice_range_append:
  "length xs = lo \<Longrightarrow> hi = lo + length ys \<Longrightarrow>
   slice_range \<lparr>elems = xs @ ys @ zs, spare = sp\<rparr> lo hi = Inr \<lparr>elems = ys, spare = zs @ sp\<rparr>"
  by (simp add: slice_range_def cap_def)

lemma index_append:
  "length xs = i \<Longrightarrow> index \<lparr>elems = xs @ y # ys, spare = sp\<rparr> i = Inr y"
  by (auto simp: index_def len_def)

lemma copy_zeros [simp]: "copy (replicate (length src) 0) src = src"
  by (simp add: copy_def)

lemma operators_simps [simp]:
  "operators STRING_TYPE = Some stringOperator" "operators INT64_TYPE = Some int64Operator"
  by (simp_all add: operators_def STRING_TYPE_def INT64_TYPE_def)

lemma unat_of_nat32: "n < 2 ^ 32 \<Longrightarrow> unat (of_nat n :: uint32) = n"
  by (simp add: unat_of_nat)

lemma unat_plus8: "unat (k :: uint32) + 8 < 2 ^ 32 \<Longrightarrow> unat (k + 8) = unat k + 8"
  by (simp add: unat_word_ariths)

lemma stringOperator_Decode_layout:
  assumes "length pre = length (key e) + 9" "length vb = unat v"
  shows "stringOperator_Decode \<lparr>elems = pre @ le32 v @ vb @ rest, spare = sp\<rparr> e
         = Inr (e\<lparr>value := string_of_bytes vb\<rparr>)"
proof -
  have a: "slice_from \<lparr>elems = pre @ le32 v @ vb @ rest, spare = sp\<rparr> (length (key e) + TYPE_SIZE + 8)
           = Inr \<lparr>elems = le32 v @ vb @ rest, spare = sp\<rparr>"
    by (rule slice_from_append) (simp add: assms TYPE_SIZE_def)
  have "slice_range \<lparr>elems = (pre @ le32 v) @ vb @ rest, spare = sp\<rparr>
          (length (key e) + TYPE_SIZE + 12) (length (key e) + TYPE_SIZE + 12 + unat v)
        = Inr \<lparr>elems = vb, spare = rest @ sp\<rparr>"
    by (rule slice_range_append) (simp_all add: assms TYPE_SIZE_def)
  then have b: "slice_range \<lparr>elems = pre @ le32 v @ vb @ rest, spare = sp\<rparr>
          (length (key e) + TYPE_SIZE + 12) (length (key e) + TYPE_SIZE + 12 + unat v)
        = Inr \<lparr>elems = vb, spare = rest @ sp\<rparr>"
    by simp
  have cz: "copy (replicate (unat v) 0) vb = vb"
    using copy_zeros [of vb] by (simp add: assms)
  show ?thesis
    unfolding stringOperator_Decode_def Let_def
    by (simp add: a b Uint32_le32 cz)
qed

lemma int64Operator_Decode_layout:
  assumes "length pre = length (key e) + 9"
  shows "int64Operator_Decode \<lparr>elems = pre @ le64 w @ rest, spare = sp\<rparr> e
         = Inr (e\<lparr>value := Sprintf_d w\<rparr>)"
proof -
  have a: "slice_range \<lparr>elems = pre @ le64 w @ rest, spare = sp\<rparr>
          (length (key e) + TYPE_SIZE + 8) (length (key e) + TYPE_SIZE + 16)
        = Inr \<lparr>elems = le64 w, spare = rest @ sp\<rparr>"
    by (rule slice_range_append) (simp_all add: assms TYPE_SIZE_def)
  show ?thesis
    unfolding int64Operator_Decode_def Let_def
    using Uint64_le64 [of w "[]"] by (simp add: a)
qed

lemma Decode_key_layout:
  assumes "length a4 = 4" "length kb = unat k" "unat k + 8 < 2 ^ 32"
  shows "Decode e \<lparr>elems = a4 @ le32 k @ kb @ t # rest, spare = sp\<rparr>
         = (let input = \<lparr>elems = a4 @ le32 k @ kb @ t # rest, spare = sp\<rparr>;
                e1 = e\<lparr>key := string_of_bytes kb\<rparr>
            in case operators t of
                 None \<Rightarrow> Inl (NilDereference, e1)
               | Some stringOperator \<Rightarrow> stringOperator_Decode input e1
               | Some int64Operator \<Rightarrow> int64Operator_Decode input e1)"
proof -
  let ?input = "\<lparr>elems = a4 @ le32 k @ kb @ t # rest, spare = sp\<rparr>"
  have u: "unat (k + 8) = unat k + 8"
    using assms(3) by (rule unat_plus8)
  have a: "slice_from ?input 4 = Inr \<lparr>elems = le32 k @ kb @ t # rest, spare = sp\<rparr>"
    by (rule slice_from_append) (simp add: assms)
  have "slice_range \<lparr>elems = (a4 @ le32 k) @ kb @ t # rest, spare = sp\<rparr> 8 (unat k + 8)
        = Inr \<lparr>elems = kb, spare = (t # rest) @ sp\<rparr>"
    by (rule slice_range_append) (simp_all add: assms)
  then have b: "slice_range ?input 8 (unat k + 8) = Inr \<lparr>elems = kb, spare = (t # rest) @ sp\<rparr>"
    by simp
  have "index \<lparr>elems = (a4 @ le32 k @ kb) @ t # rest, spare = sp\<rparr> (unat k + 8) = Inr t"
    by (rule index_append) (simp add: assms)
  then have c: "index ?input (unat k + 8) = Inr t"
    by simp
  have cz: "copy (replicate (unat k) 0) kb = kb"
    using copy_zeros [of kb] by (simp add: assms)
  show ?thesis
    unfolding Decode_def Let_def
    by (simp only: a b c u cz Uint32_le32 bindE_simps sum.case slice.simps)
qed

subsection \<open>ParseInt reads what Sprintf prints\<close>

lemma byte_of_digit_char: "d < 10 \<Longrightarrow> byte_of_char (char_of (48 + d)) = 48 + of_nat d"
proof -
  assume "d < 10"
  then have "(48 + d) mod 256 = 48 + d" by simp
  then have "of_char (char_of (48 + d)) = 48 + d"
    by (simp only: of_char_of)
  then show ?thesis by (simp add: byte_of_char_def)
qed

lemma digit_of_digit: "d < 10 \<Longrightarrow> digit_of (48 + of_nat d) = Some (of_nat d)"
proof -
  assume d: "d < 10"
  then have u: "unat (48 + of_nat d :: byte) = 48 + d"
    by (simp add: unat_word_ariths unat_of_nat)
  have "(0x30 :: byte) \<le> 48 + of_nat d" "48 + of_nat d \<le> (0x39 :: byte)"
    using d by (simp_all add: word_le_nat_alt u)
  then show ?thesis by (simp add: digit_of_def)
qed

lemma ParseUint_loop_append:
  "ParseUint_loop n (xs @ ys) =
     (case ParseUint_loop n xs of Inl e \<Rightarrow> Inl e | Inr m \<Rightarrow> ParseUint_loop m ys)"
  by (induction xs arbitrary: n) (auto simp: Let_def split: option.splits)

lemma ParseUint_loop_digit:
  assumes "k < 2 ^ 64" "10 \<le> k"
  shows "ParseUint_loop (of_nat (k div 10)) [48 + of_nat (k mod 10)] = Inr (of_nat k)"
proof -
  let ?m = "of_nat (k div 10) :: uint64"
  let ?d = "of_nat (k mod 10) :: byte"
  have dlt: "k mod 10 < 10" by simp
  have um: "unat ?m = k div 10"
    using assms by (simp add: unat_of_nat)
  have ud: "unat ?d = k mod 10"
    by (simp add: unat_of_nat)
  have d10: "\<not> 10 \<le> ?d"
    by (simp add: word_le_nat_alt ud)
  have cut: "\<not> cutoff \<le> ?m"
    using assms by (simp add: word_le_nat_alt um cutoff_def)
  have ucd: "(ucast ?d :: uint64) = of_nat (k mod 10)"
    using of_nat_unat [of ?d, where 'a = uint64] by (simp only: ud)
  have n1: "?m * 10 + ucast ?d = (of_nat k :: uint64)"
  proof -
    have "(of_nat k :: uint64) = of_nat (k div 10 * 10 + k mod 10)"
      by simp
    also have "\<dots> = ?m * 10 + of_nat (k mod 10)"
      by (simp only: of_nat_add of_nat_mult of_nat_numeral)
    finally show ?thesis by (simp only: ucd)
  qed
  have un': "unat (?m * 10) = k div 10 * 10"
    using assms by (simp add: unat_word_ariths um)
  have uk: "unat (of_nat k :: uint64) = k"
    using assms by (simp add: unat_of_nat)
  have nolt: "\<not> (of_nat k :: uint64) < ?m * 10"
    by (simp add: word_less_nat_alt un' uk)
  have nomax: "\<not> maxVal < (of_nat k :: uint64)"
    using assms by (simp add: word_less_nat_alt uk maxVal_def)
  show ?thesis
    using d10 cut nolt nomax
    by (simp add: digit_of_digit [OF dlt] Let_def n1)
qed

lemma ParseUint_loop_decimal:
  "k < 2 ^ 64 \<Longrightarrow> ParseUint_loop 0 (bytes_of_string (decimal k)) = Inr (of_nat k)"
proof (induction k rule: decimal.induct)
  case (1 n)
  show ?case
  proof (cases "n < 10")
    case True
    have ud: "unat (of_nat n :: byte) = n"
      using True by (simp add: unat_of_nat)
    have d10: "\<not> 10 \<le> (of_nat n :: byte)"
      using True by (simp add: word_le_nat_alt ud)
    have c0: "\<not> cutoff \<le> 0" by (simp add: cutoff_def)
    have uc: "(ucast (of_nat n :: byte) :: uint64) = of_nat n"
      using of_nat_unat [of "of_nat n :: byte", where 'a = uint64] by (simp only: ud)
    have un: "unat (of_nat n :: uint64) = n"
      using True by (simp add: unat_of_nat)
    have nomax: "\<not> maxVal < (of_nat n :: uint64)"
      using True by (simp add: word_less_nat_alt un maxVal_def)
    have "decimal n = [char_of (48 + n)]"
      using True by (subst decimal.simps) simp
    then show ?thesis
      using True d10 c0 nomax
      by (simp add: bytes_of_string_def byte_of_digit_char digit_of_digit Let_def uc)
  next
    case False
    then have ge: "10 \<le> n" by simp
    have dlt: "n mod 10 < 10" by simp
    have lt: "n div 10 < 2 ^ 64" using "1.prems" by simp
    have dec: "decimal n = decimal (n div 10) @ [char_of (48 + n mod 10)]"
      using False by (subst decimal.simps) simp
    have ih: "ParseUint_loop 0 (bytes_of_string (decimal (n div 10))) = Inr (of_nat (n div 10))"
      using "1.IH" [OF False lt] .
    show ?thesis
      by (simp add: dec bytes_of_string_def ParseUint_loop_append ih [unfolded bytes_of_string_def]
          byte_of_digit_char [OF dlt] ParseUint_loop_digit [OF "1.prems" ge] del: ParseUint_loop.simps)
  qed
qed

lemma decimal_not_Nil: "decimal k \<noteq> []"
  by (subst decimal.simps) simp

lemma hd_decimal: "of_char (hd (decimal k)) \<ge> (48 :: nat)"
proof (induction k rule: decimal.induct)
  case (1 n)
  show ?case
  proof (cases "n < 10")
    case True
    have "of_char (char_of (48 + n)) = (48 + n) mod 256"
      by (simp only: of_char_of)
    with True have "(of_char (char_of (48 + n)) :: nat) = 48 + n" by simp
    moreover have "decimal n = [char_of (48 + n)]"
      using True by (subst decimal.simps) simp
    ultimately show ?thesis by simp
  next
    case False
    have dec: "decimal n = decimal (n div 10) @ [char_of (48 + n mod 10)]"
      using False by (subst decimal.simps) simp
    show ?thesis
      using "1.IH" [OF False] by (simp add: dec decimal_not_Nil)
  qed
qed

lemma hd_decimal_not_sign: "hd (decimal k) \<noteq> CHR ''+''" "hd (decimal k) \<noteq> CHR ''-''"
proof -
  show "hd (decimal k) \<noteq> CHR ''+''"
  proof
    assume "hd (decimal k) = CHR ''+''"
    then have "of_char (hd (decimal k)) = (43::nat)" by simp
    with hd_decimal [of k] show False by simp
  qed
  show "hd (decimal k) \<noteq> CHR ''-''"
  proof
    assume "hd (decimal k) = CHR ''-''"
    then have "of_char (hd (decimal k)) = (45::nat)" by simp
    with hd_decimal [of k] show False by simp
  qed
qed

lemma ParseUint_decimal: "k < 2 ^ 64 \<Longrightarrow> ParseUint (decimal k) = Inr (of_nat k)"
  by (simp add: ParseUint_def decimal_not_Nil ParseUint_loop_decimal)

lemma word_of_sint: "(word_of_int (sint (i :: uint64)) :: uint64) = i"
proof -
  have "(scast i :: uint64) = word_of_int (sint i)" by (rule scast_eq)
  then show ?thesis by simp
qed

lemma ParseInt_Sprintf_d: "ParseInt (Sprintf_d i) = Inr i"
proof (cases "sint i < 0")
  case True
  define n where "n = nat (- sint i)"
  have n: "0 < n" "n \<le> 2 ^ 63"
    using True sint_ge [of i] by (simp_all add: n_def)
  then have lt: "n < 2 ^ 64" by simp
  have un: "unat (of_nat n :: uint64) = n"
    using lt by (simp add: unat_of_nat)
  have nogt: "\<not> (2 ^ 63 :: uint64) < of_nat n"
    using n by (simp add: word_less_nat_alt un)
  have "int n = - sint i" using True by (simp add: n_def)
  then have "- (of_nat n :: uint64) = word_of_int (sint i)"
    by (metis of_int_of_nat_eq of_int_minus minus_minus)
  then have res: "- (of_nat n :: uint64) = i"
    by (simp only: word_of_sint)
  have sp: "Sprintf_d i = CHR ''-'' # decimal n"
    using True by (simp add: Sprintf_d_def decimal_int_def n_def)
  show ?thesis
    using nogt by (simp add: sp ParseInt_def Let_def ParseUint_decimal [OF lt] res)
next
  case False
  define n where "n = nat (sint i)"
  have n: "n < 2 ^ 63"
    using False sint_lt [of i] by (simp add: n_def)
  then have lt: "n < 2 ^ 64" by simp
  have un: "unat (of_nat n :: uint64) = n"
    using lt by (simp add: unat_of_nat)
  have noge: "\<not> (2 ^ 63 :: uint64) \<le> of_nat n"
    using n by (simp add: word_le_nat_alt un)
  have "int n = sint i" using False by (simp add: n_def)
  then have "(of_nat n :: uint64) = word_of_int (sint i)"
    by (metis of_int_of_nat_eq)
  then have res: "(of_nat n :: uint64) = i"
    by (simp only: word_of_sint)
  have sp: "Sprintf_d i = decimal n"
    using False by (simp add: Sprintf_d_def decimal_int_def n_def)
  show ?thesis
    using noge hd_decimal_not_sign [of n]
    by (simp add: sp ParseInt_def Let_def ParseUint_decimal [OF lt] res decimal_not_Nil)
qed

subsection \<open>Facts about Decode and Encode\<close>

lemma Decode_valueType: "Decode e input = Inr e' \<Longrightarrow> valueType e' = valueType e"
  by (auto simp: Decode_def stringOperator_Decode_def int64Operator_Decode_def Let_def
      split: sum.splits option.splits typeOperator.splits)

lemma operators_Some:
  "operators t = Some stringOperator \<longleftrightarrow> t = STRING_TYPE"
  "operators t = Some int64Operator \<longleftrightarrow> t = INT64_TYPE"
  by (auto simp: operators_def STRING_TYPE_def INT64_TYPE_def)

lemma Encode_cases:
  assumes "Encode e = Inr bs"
  shows "(valueType e = STRING_TYPE \<and> bs = wire_string e)
       \<or> (valueType e = INT64_TYPE \<and> (\<exists>i. ParseInt (value e) = Inr i \<and> bs = wire_int64 e i))"
  using assms
  by (auto simp: Encode_def stringOperator_Encode_eq int64Operator_Encode_eq operators_Some
      split: option.splits typeOperator.splits sum.splits)

lemma unat_of_nat_len32: "n < 2 ^ 32 \<Longrightarrow> unat (of_nat n :: uint32) = n"
  by (simp add: unat_of_nat)

lemma Decode_wire_string:
  assumes "length (key r) + 8 < 2 ^ 32" "length (value r) < 2 ^ 32"
  shows "Decode e \<lparr>elems = wire_string r @ rest, spare = sp\<rparr>
         = Inr (e\<lparr>key := key r, value := value r\<rparr>)"
proof -
  define s :: uint32 where "s = of_nat (length (key r) + length (value r) + 13)"
  define k :: uint32 where "k = of_nat (length (key r))"
  define v :: uint32 where "v = of_nat (length (value r))"
  define kb where "kb = bytes_of_string (key r)"
  define vb where "vb = bytes_of_string (value r)"
  define e1 where "e1 = e\<lparr>key := string_of_bytes kb\<rparr>"
  have uk: "unat k = length (key r)"
    using assms(1) by (simp add: k_def unat_of_nat_len32)
  have uv: "unat v = length (value r)"
    using assms(2) by (simp add: v_def unat_of_nat_len32)
  have w: "wire_string r @ rest = le32 s @ le32 k @ kb @ STRING_TYPE # (le32 v @ vb @ rest)"
    by (simp add: wire_string_def s_def k_def v_def kb_def vb_def)
  have ke1: "key e1 = key r" by (simp add: e1_def kb_def)
  have bd: "length (key r) < 4294967288" using assms(1) by simp
  have d1: "Decode e \<lparr>elems = le32 s @ le32 k @ kb @ STRING_TYPE # (le32 v @ vb @ rest), spare = sp\<rparr>
        = stringOperator_Decode \<lparr>elems = le32 s @ le32 k @ kb @ STRING_TYPE # (le32 v @ vb @ rest), spare = sp\<rparr> e1"
    by (subst Decode_key_layout) (simp_all add: uk kb_def bd Let_def e1_def)
  have "stringOperator_Decode \<lparr>elems = (le32 s @ le32 k @ kb @ [STRING_TYPE]) @ le32 v @ vb @ rest, spare = sp\<rparr> e1
        = Inr (e1\<lparr>value := string_of_bytes vb\<rparr>)"
    by (rule stringOperator_Decode_layout) (simp_all add: ke1 kb_def vb_def uv)
  then have d2: "stringOperator_Decode \<lparr>elems = le32 s @ le32 k @ kb @ STRING_TYPE # (le32 v @ vb @ rest), spare = sp\<rparr> e1
        = Inr (e1\<lparr>value := string_of_bytes vb\<rparr>)"
    by simp
  show ?thesis
    by (simp only: w d1 d2) (simp add: e1_def kb_def vb_def)
qed

lemma Decode_wire_int64:
  assumes "length (key r) + 8 < 2 ^ 32"
  shows "Decode e \<lparr>elems = wire_int64 r i @ rest, spare = sp\<rparr>
         = Inr (e\<lparr>key := key r, value := Sprintf_d i\<rparr>)"
proof -
  define s :: uint32 where "s = of_nat (length (key r) + 21)"
  define k :: uint32 where "k = of_nat (length (key r))"
  define kb where "kb = bytes_of_string (key r)"
  define e1 where "e1 = e\<lparr>key := string_of_bytes kb\<rparr>"
  define tl where "tl = [0, 0, 0, 0 :: byte] @ rest"
  have uk: "unat k = length (key r)"
    using assms(1) by (simp add: k_def unat_of_nat_len32)
  have w: "wire_int64 r i @ rest = le32 s @ le32 k @ kb @ INT64_TYPE # (le64 i @ tl)"
    by (simp add: wire_int64_def s_def k_def kb_def tl_def)
  have ke1: "key e1 = key r" by (simp add: e1_def kb_def)
  have bd: "length (key r) < 4294967288" using assms(1) by simp
  have d1: "Decode e \<lparr>elems = le32 s @ le32 k @ kb @ INT64_TYPE # (le64 i @ tl), spare = sp\<rparr>
        = int64Operator_Decode \<lparr>elems = le32 s @ le32 k @ kb @ INT64_TYPE # (le64 i @ tl), spare = sp\<rparr> e1"
    by (subst Decode_key_layout) (simp_all add: uk kb_def bd Let_def e1_def)
  have "int64Operator_Decode \<lparr>elems = (le32 s @ le32 k @ kb @ [INT64_TYPE]) @ le64 i @ tl, spare = sp\<rparr> e1
        = Inr (e1\<lparr>value := Sprintf_d i\<rparr>)"
    by (rule int64Operator_Decode_layout) (simp_all add: ke1 kb_def)
  then have d2: "int64Operator_Decode \<lparr>elems = le32 s @ le32 k @ kb @ INT64_TYPE # (le64 i @ tl), spare = sp\<rparr> e1
        = Inr (e1\<lparr>value := Sprintf_d i\<rparr>)"
    by simp
  show ?thesis
    by (simp only: w d1 d2) (simp add: e1_def kb_def)
qed

lemma Encode_string: "valueType r = STRING_TYPE \<Longrightarrow> Encode r = Inr (wire_string r)"
  by (simp add: Encode_def stringOperator_Encode_eq)

lemma Encode_int64:
  "valueType r = INT64_TYPE \<Longrightarrow> ParseInt (value r) = Inr i \<Longrightarrow> Encode r = Inr (wire_int64 r i)"
  by (simp add: Encode_def int64Operator_Encode_eq)

lemma sint_word_of_int64:
  "- (2 ^ 63) \<le> v \<Longrightarrow> v < 2 ^ 63 \<Longrightarrow> sint (word_of_int v :: uint64) = v"
  by (simp add: sint_sbintrunc' signed_take_bit_int_eq_self)

subsection \<open>Decode on a slice that is too short\<close>

text \<open>
  The input is a slice of any capacity: \<open>elems\<close> are the bytes within its length, \<open>spare\<close>
  the bytes of its backing array beyond. \<^verbatim>\<open>Decode\<close> indexes and takes \<^verbatim>\<open>input[lo:]\<close> within
  the length, and takes \<^verbatim>\<open>input[lo:hi]\<close> within the capacity.
\<close>

lemma bounds_panic_simps [simp]:
  "bounds_panic (Inl (IndexOutOfRange, e))" "bounds_panic (Inl (SliceBoundsOutOfRange, e))"
  by (simp_all add: bounds_panic_def)

lemma Decode_len_lt4: "len inp < 4 \<Longrightarrow> Decode e inp = Inl (SliceBoundsOutOfRange, e)"
  by (simp add: Decode_def slice_from_def)

lemma Decode_len_lt8:
  assumes "4 \<le> len inp" "len inp < 8"
  shows "Decode e inp = Inl (IndexOutOfRange, e)"
proof -
  have "length (elems inp) - 4 < 4" using assms by (simp add: len_def)
  then have "Uint32 (drop 4 (elems inp)) = Inl IndexOutOfRange"
    by (simp add: Uint32_def)
  then show ?thesis
    using assms by (simp add: Decode_def slice_from_def)
qed

lemma Decode_before_tag:
  assumes "length a4 = 4" "unat k + 8 < 2 ^ 32" "length x \<le> unat k"
  shows "bounds_panic (Decode e \<lparr>elems = a4 @ le32 k @ x, spare = sp\<rparr>)"
proof -
  let ?inp = "\<lparr>elems = a4 @ le32 k @ x, spare = sp\<rparr>"
  have u: "unat (k + 8) = unat k + 8"
    using assms(2) by (rule unat_plus8)
  have a: "bindE (slice_from ?inp 4) (\<lambda>s. Uint32 (elems s)) = Inr k"
    by (simp add: slice_from_def len_def assms(1) Uint32_le32)
  have c: "index ?inp (unat k + 8) = Inl IndexOutOfRange"
    using assms(1,3) by (simp add: index_def len_def)
  show ?thesis
  proof (cases "unat k + 8 \<le> cap ?inp")
    case True
    then obtain s where b: "slice_range ?inp 8 (unat k + 8) = Inr s"
      by (simp add: slice_range_def)
    show ?thesis
      unfolding Decode_def Let_def by (simp only: a b c u sum.case bounds_panic_simps)
  next
    case False
    then have b: "slice_range ?inp 8 (unat k + 8) = Inl SliceBoundsOutOfRange"
      by (simp add: slice_range_def)
    show ?thesis
      unfolding Decode_def Let_def by (simp only: a b u sum.case bounds_panic_simps)
  qed
qed

lemma stringOperator_Decode_no_length:
  assumes "length pre = length (key e1) + 9" "length x < 4"
  shows "stringOperator_Decode \<lparr>elems = pre @ x, spare = sp\<rparr> e1 = Inl (IndexOutOfRange, e1)"
  using assms
  by (simp add: stringOperator_Decode_def Let_def slice_from_def len_def TYPE_SIZE_def Uint32_def)

lemma stringOperator_Decode_capacity:
  assumes "length pre = length (key e1) + 9"
  shows "stringOperator_Decode \<lparr>elems = pre @ le32 v @ x, spare = sp\<rparr> e1 =
     (if length x + length sp < unat v then Inl (SliceBoundsOutOfRange, e1)
      else Inr (e1\<lparr>value := string_of_bytes (take (unat v) (x @ sp))\<rparr>))"
proof -
  let ?inp = "\<lparr>elems = pre @ le32 v @ x, spare = sp\<rparr>"
  have a: "slice_from ?inp (length (key e1) + TYPE_SIZE + 8) = Inr \<lparr>elems = le32 v @ x, spare = sp\<rparr>"
    by (rule slice_from_append) (simp add: assms TYPE_SIZE_def)
  show ?thesis
  proof (cases "length x + length sp < unat v")
    case True
    then have b: "slice_range ?inp (length (key e1) + TYPE_SIZE + 12)
                    (length (key e1) + TYPE_SIZE + 12 + unat v) = Inl SliceBoundsOutOfRange"
      by (simp add: slice_range_def cap_def assms TYPE_SIZE_def)
    show ?thesis
      unfolding stringOperator_Decode_def Let_def
      using True by (simp only: a b bindE_simps slice.simps Uint32_le32 sum.case if_True)
  next
    case False
    then have b: "slice_range ?inp (length (key e1) + TYPE_SIZE + 12)
                    (length (key e1) + TYPE_SIZE + 12 + unat v)
                  = Inr \<lparr>elems = take (unat v) (x @ sp),
                         spare = drop (length (key e1) + TYPE_SIZE + 12 + unat v) (elems ?inp @ spare ?inp)\<rparr>"
      by (simp add: slice_range_def cap_def assms TYPE_SIZE_def)
    have cz: "copy (replicate (unat v) 0) (take (unat v) (x @ sp)) = take (unat v) (x @ sp)"
      using False by (simp add: copy_def min_def)
    show ?thesis
      unfolding stringOperator_Decode_def Let_def
      using False by (simp only: a b bindE_simps slice.simps Uint32_le32 sum.case cz if_False)
  qed
qed

lemma Uint64_total: "length b = 8 \<Longrightarrow> \<exists>w. Uint64 b = Inr w"
  by (simp add: Uint64_def)

lemma int64Operator_Decode_capacity:
  assumes "length pre = length (key e1) + 9"
  shows "if length x + length sp < 8
         then int64Operator_Decode \<lparr>elems = pre @ x, spare = sp\<rparr> e1 = Inl (SliceBoundsOutOfRange, e1)
         else \<exists>w. Uint64 (take 8 (x @ sp)) = Inr w \<and>
                int64Operator_Decode \<lparr>elems = pre @ x, spare = sp\<rparr> e1 = Inr (e1\<lparr>value := Sprintf_d w\<rparr>)"
proof (cases "length x + length sp < 8")
  case True
  then show ?thesis
    by (simp add: int64Operator_Decode_def Let_def slice_range_def cap_def assms TYPE_SIZE_def)
next
  case False
  then have l8: "length (take 8 (x @ sp)) = 8" by simp
  from Uint64_total [OF l8] obtain w where w: "Uint64 (take 8 (x @ sp)) = Inr w"
    by blast
  have b: "slice_range \<lparr>elems = pre @ x, spare = sp\<rparr> (length (key e1) + TYPE_SIZE + 8)
             (length (key e1) + TYPE_SIZE + 16)
           = Inr \<lparr>elems = take 8 (x @ sp),
                  spare = drop (length (key e1) + TYPE_SIZE + 16) ((pre @ x) @ sp)\<rparr>"
    using False by (simp add: slice_range_def cap_def assms TYPE_SIZE_def)
  have "int64Operator_Decode \<lparr>elems = pre @ x, spare = sp\<rparr> e1 = Inr (e1\<lparr>value := Sprintf_d w\<rparr>)"
    unfolding int64Operator_Decode_def Let_def
    by (simp only: b bindE_simps slice.simps w sum.case)
  with w False show ?thesis by simp
qed


lemma drop_take_layout: "length H = a \<Longrightarrow> drop a (take (a + b) (H @ y)) = take b y"
  by simp

lemma drop_wire_string:
  "drop (length (key r) + 13) (wire_string r) = bytes_of_string (value r)"
  by (simp add: wire_string_def)

lemma drop_take_wire_int64:
  "drop (length (key r) + 9) (take (length (key r) + 17) (wire_int64 r i)) = le64 i"
  by (simp add: wire_int64_def)

lemma truncated_string_spare:
  assumes "length (key r) + 8 < 2 ^ 32" "length (value r) < 2 ^ 32" "n < length (wire_string r)"
  shows "if length (key r) + 13 \<le> n \<and> length (wire_string r) \<le> n + length sp
         then Decode e \<lparr>elems = take n (wire_string r), spare = sp\<rparr> =
              Inr (e\<lparr>key := key r, value := string_of_bytes (drop (length (key r) + 13)
                     (take (length (wire_string r)) (take n (wire_string r) @ sp)))\<rparr>)
         else bounds_panic (Decode e \<lparr>elems = take n (wire_string r), spare = sp\<rparr>)"
proof -
  define kl where "kl = length (key r)"
  define vl where "vl = length (value r)"
  define s :: uint32 where "s = of_nat (kl + vl + 13)"
  define k :: uint32 where "k = of_nat kl"
  define v :: uint32 where "v = of_nat vl"
  define kb where "kb = bytes_of_string (key r)"
  define vb where "vb = bytes_of_string (value r)"
  define e1 where "e1 = e\<lparr>key := string_of_bytes kb\<rparr>"
  define res where "res = Decode e \<lparr>elems = take n (wire_string r), spare = sp\<rparr>"
  have uk: "unat k = kl"
    using assms(1) by (simp add: k_def kl_def unat_of_nat_len32)
  have uv: "unat v = vl"
    using assms(2) by (simp add: v_def vl_def unat_of_nat_len32)
  have lkb: "length kb = kl" and lvb: "length vb = vl"
    by (simp_all add: kb_def vb_def kl_def vl_def)
  have ke1: "key e1 = key r" by (simp add: e1_def kb_def)
  have bd: "kl < 4294967288" using assms(1) by (simp add: kl_def)
  have w: "wire_string r = le32 s @ le32 k @ kb @ STRING_TYPE # le32 v @ vb"
    by (simp add: wire_string_def s_def k_def v_def kb_def vb_def kl_def vl_def)
  have lw: "length (wire_string r) = kl + vl + 13"
    by (simp add: w lkb lvb)
  have n: "n < kl + vl + 13"
    using assms(3) by (simp add: lw)
  have ln: "len \<lparr>elems = take n (wire_string r), spare = sp\<rparr> = n"
    using n by (simp add: len_def lw)
  have goal: "?thesis \<longleftrightarrow>
      (if kl + 13 \<le> n \<and> kl + vl + 13 \<le> n + length sp
       then res = Inr (e\<lparr>key := key r, value := string_of_bytes (drop (kl + 13)
                     (take (kl + vl + 13) (take n (wire_string r) @ sp)))\<rparr>)
       else bounds_panic res)"
    by (simp only: lw res_def kl_def)
  consider (a) "n < 4" | (b) "4 \<le> n" "n < 8" | (c) "8 \<le> n" "n \<le> kl + 8"
    | (f) "kl + 9 \<le> n" "n < kl + 13" | (g) "kl + 13 \<le> n" "n < kl + vl + 13"
    using n by linarith
  then have "if kl + 13 \<le> n \<and> kl + vl + 13 \<le> n + length sp
       then res = Inr (e\<lparr>key := key r, value := string_of_bytes (drop (kl + 13)
                     (take (kl + vl + 13) (take n (wire_string r) @ sp)))\<rparr>)
       else bounds_panic res"
  proof cases
    case a
    have "res = Inl (SliceBoundsOutOfRange, e)"
      unfolding res_def using a by (intro Decode_len_lt4) (simp add: ln)
    then show ?thesis using a by simp
  next
    case b
    have "res = Inl (IndexOutOfRange, e)"
      unfolding res_def using b by (intro Decode_len_lt8) (simp_all add: ln)
    then show ?thesis using b by simp
  next
    case c
    then have tk: "take n (wire_string r) = le32 s @ le32 k @ take (n - 8) kb"
      by (simp add: w lkb)
    have "bounds_panic (Decode e \<lparr>elems = le32 s @ le32 k @ take (n - 8) kb, spare = sp\<rparr>)"
      using c by (intro Decode_before_tag) (simp_all add: bd uk lkb)
    then have "bounds_panic res" by (simp only: res_def tk)
    then show ?thesis using c by simp
  next
    case f
    define x where "x = take (n - (9 + kl)) (le32 v)"
    have lx: "length x < 4" using f by (simp add: x_def)
    have tk: "take n (wire_string r) = le32 s @ le32 k @ kb @ STRING_TYPE # x"
      using f by (simp add: w lkb take_Cons' x_def)
    have d1: "Decode e \<lparr>elems = le32 s @ le32 k @ kb @ STRING_TYPE # x, spare = sp\<rparr>
        = stringOperator_Decode \<lparr>elems = le32 s @ le32 k @ kb @ STRING_TYPE # x, spare = sp\<rparr> e1"
      by (subst Decode_key_layout) (simp_all add: uk lkb bd Let_def e1_def)
    have "stringOperator_Decode \<lparr>elems = (le32 s @ le32 k @ kb @ [STRING_TYPE]) @ x, spare = sp\<rparr> e1
        = Inl (IndexOutOfRange, e1)"
      by (rule stringOperator_Decode_no_length) (simp_all add: ke1 lkb lx kl_def)
    then have d2: "stringOperator_Decode \<lparr>elems = le32 s @ le32 k @ kb @ STRING_TYPE # x, spare = sp\<rparr> e1
        = Inl (IndexOutOfRange, e1)"
      by simp
    have "res = Inl (IndexOutOfRange, e1)" by (simp only: res_def tk d1 d2)
    then show ?thesis using f by simp
  next
    case g
    define x where "x = take (n - (13 + kl)) vb"
    define H where "H = le32 s @ le32 k @ kb @ [STRING_TYPE]"
    have lx: "length x = n - (kl + 13)" using g by (simp add: x_def lvb)
    have lH: "length H = kl + 9" by (simp add: H_def lkb)
    have tk: "take n (wire_string r) = le32 s @ le32 k @ kb @ STRING_TYPE # le32 v @ x"
      using g by (simp add: w lkb take_Cons' x_def)
    have d1: "Decode e \<lparr>elems = le32 s @ le32 k @ kb @ STRING_TYPE # (le32 v @ x), spare = sp\<rparr>
        = stringOperator_Decode \<lparr>elems = le32 s @ le32 k @ kb @ STRING_TYPE # (le32 v @ x), spare = sp\<rparr> e1"
      by (subst Decode_key_layout) (simp_all add: uk lkb bd Let_def e1_def)
    have "stringOperator_Decode \<lparr>elems = H @ le32 v @ x, spare = sp\<rparr> e1
        = (if length x + length sp < unat v then Inl (SliceBoundsOutOfRange, e1)
           else Inr (e1\<lparr>value := string_of_bytes (take (unat v) (x @ sp))\<rparr>))"
      by (rule stringOperator_Decode_capacity) (simp add: ke1 lH kl_def)
    then have d2: "stringOperator_Decode \<lparr>elems = le32 s @ le32 k @ kb @ STRING_TYPE # (le32 v @ x), spare = sp\<rparr> e1
        = (if length x + length sp < vl then Inl (SliceBoundsOutOfRange, e1)
           else Inr (e1\<lparr>value := string_of_bytes (take vl (x @ sp))\<rparr>))"
      by (simp add: H_def uv)
    have r: "res = (if length x + length sp < vl then Inl (SliceBoundsOutOfRange, e1)
           else Inr (e1\<lparr>value := string_of_bytes (take vl (x @ sp))\<rparr>))"
      by (simp only: res_def tk d1 d2)
    have "take n (wire_string r) @ sp = (H @ le32 v) @ (x @ sp)"
      by (simp add: tk H_def)
    moreover have "length (H @ le32 v) = kl + 13" by (simp add: lH)
    ultimately have dt: "drop (kl + 13) (take (kl + 13 + vl) (take n (wire_string r) @ sp)) = take vl (x @ sp)"
      by (simp only: drop_take_layout)
    have ar: "kl + vl + 13 = kl + 13 + vl" by simp
    have cnd: "kl + 13 + vl \<le> n + length sp \<longleftrightarrow> \<not> length x + length sp < vl"
      using g by (simp add: lx) linarith
    show ?thesis
    proof (cases "length x + length sp < vl")
      case True
      then have "res = Inl (SliceBoundsOutOfRange, e1)" by (simp add: r)
      then show ?thesis using True cnd by (simp add: ar)
    next
      case False
      then have "res = Inr (e\<lparr>key := key r, value := string_of_bytes (take vl (x @ sp))\<rparr>)"
        by (simp add: r e1_def kb_def)
      then show ?thesis
        using g(1) False cnd by (simp only: ar dt) simp
    qed
  qed
  with goal show ?thesis by blast
qed

lemma truncated_int64_spare:
  assumes "length (key r) + 8 < 2 ^ 32" "n < length (wire_int64 r i)"
  shows "if length (key r) + 9 \<le> n \<and> length (key r) + 17 \<le> n + length sp
         then \<exists>w. Uint64 (drop (length (key r) + 9)
                        (take (length (key r) + 17) (take n (wire_int64 r i) @ sp))) = Inr w \<and>
                  Decode e \<lparr>elems = take n (wire_int64 r i), spare = sp\<rparr> =
                    Inr (e\<lparr>key := key r, value := Sprintf_d w\<rparr>)
         else bounds_panic (Decode e \<lparr>elems = take n (wire_int64 r i), spare = sp\<rparr>)"
proof -
  define kl where "kl = length (key r)"
  define s :: uint32 where "s = of_nat (kl + 21)"
  define k :: uint32 where "k = of_nat kl"
  define kb where "kb = bytes_of_string (key r)"
  define z where "z = le64 i @ [0, 0, 0, 0 :: byte]"
  define e1 where "e1 = e\<lparr>key := string_of_bytes kb\<rparr>"
  define res where "res = Decode e \<lparr>elems = take n (wire_int64 r i), spare = sp\<rparr>"
  have uk: "unat k = kl"
    using assms(1) by (simp add: k_def kl_def unat_of_nat_len32)
  have lkb: "length kb = kl"
    by (simp add: kb_def kl_def)
  have lz: "length z = 12" by (simp add: z_def)
  have ke1: "key e1 = key r" by (simp add: e1_def kb_def)
  have bd: "kl < 4294967288" using assms(1) by (simp add: kl_def)
  have w: "wire_int64 r i = le32 s @ le32 k @ kb @ INT64_TYPE # z"
    by (simp add: wire_int64_def s_def k_def kb_def kl_def z_def)
  have lw: "length (wire_int64 r i) = kl + 21"
    by (simp add: w lkb lz)
  have n: "n < kl + 21"
    using assms(2) by (simp add: lw)
  have ln: "len \<lparr>elems = take n (wire_int64 r i), spare = sp\<rparr> = n"
    using n by (simp add: len_def lw)
  have goal: "?thesis \<longleftrightarrow>
      (if kl + 9 \<le> n \<and> kl + 17 \<le> n + length sp
       then \<exists>w. Uint64 (drop (kl + 9) (take (kl + 17) (take n (wire_int64 r i) @ sp))) = Inr w \<and>
                res = Inr (e\<lparr>key := key r, value := Sprintf_d w\<rparr>)
       else bounds_panic res)"
    by (simp only: res_def kl_def)
  consider (a) "n < 4" | (b) "4 \<le> n" "n < 8" | (c) "8 \<le> n" "n \<le> kl + 8"
    | (f) "kl + 9 \<le> n" "n < kl + 21"
    using n by linarith
  then have "if kl + 9 \<le> n \<and> kl + 17 \<le> n + length sp
       then \<exists>w. Uint64 (drop (kl + 9) (take (kl + 17) (take n (wire_int64 r i) @ sp))) = Inr w \<and>
                res = Inr (e\<lparr>key := key r, value := Sprintf_d w\<rparr>)
       else bounds_panic res"
  proof cases
    case a
    have "res = Inl (SliceBoundsOutOfRange, e)"
      unfolding res_def using a by (intro Decode_len_lt4) (simp add: ln)
    then show ?thesis using a by simp
  next
    case b
    have "res = Inl (IndexOutOfRange, e)"
      unfolding res_def using b by (intro Decode_len_lt8) (simp_all add: ln)
    then show ?thesis using b by simp
  next
    case c
    then have tk: "take n (wire_int64 r i) = le32 s @ le32 k @ take (n - 8) kb"
      by (simp add: w lkb)
    have "bounds_panic (Decode e \<lparr>elems = le32 s @ le32 k @ take (n - 8) kb, spare = sp\<rparr>)"
      using c by (intro Decode_before_tag) (simp_all add: bd uk lkb)
    then have "bounds_panic res" by (simp only: res_def tk)
    then show ?thesis using c by simp
  next
    case f
    define x where "x = take (n - (9 + kl)) z"
    define H where "H = le32 s @ le32 k @ kb @ [INT64_TYPE]"
    have lx: "length x = n - (kl + 9)" using f by (simp add: x_def lz)
    have lH: "length H = kl + 9" by (simp add: H_def lkb)
    have tk: "take n (wire_int64 r i) = le32 s @ le32 k @ kb @ INT64_TYPE # x"
      using f by (simp add: w lkb take_Cons' x_def)
    have d1: "Decode e \<lparr>elems = le32 s @ le32 k @ kb @ INT64_TYPE # x, spare = sp\<rparr>
        = int64Operator_Decode \<lparr>elems = le32 s @ le32 k @ kb @ INT64_TYPE # x, spare = sp\<rparr> e1"
      by (subst Decode_key_layout) (simp_all add: uk lkb bd Let_def e1_def)
    have hx: "H @ x = le32 s @ le32 k @ kb @ INT64_TYPE # x" by (simp add: H_def)
    have r: "res = int64Operator_Decode \<lparr>elems = H @ x, spare = sp\<rparr> e1"
      by (simp only: res_def tk d1 hx)
    have cap: "if length x + length sp < 8
         then int64Operator_Decode \<lparr>elems = H @ x, spare = sp\<rparr> e1 = Inl (SliceBoundsOutOfRange, e1)
         else \<exists>w. Uint64 (take 8 (x @ sp)) = Inr w \<and>
                int64Operator_Decode \<lparr>elems = H @ x, spare = sp\<rparr> e1 = Inr (e1\<lparr>value := Sprintf_d w\<rparr>)"
      by (rule int64Operator_Decode_capacity) (simp add: ke1 lH kl_def)
    have "take n (wire_int64 r i) @ sp = H @ (x @ sp)"
      by (simp add: tk H_def)
    then have dt: "drop (kl + 9) (take (kl + 9 + 8) (take n (wire_int64 r i) @ sp)) = take 8 (x @ sp)"
      using lH by (simp only: drop_take_layout)
    have ar: "kl + 17 = kl + 9 + 8" by simp
    have cnd: "kl + 17 \<le> n + length sp \<longleftrightarrow> \<not> length x + length sp < 8"
      using f by (simp add: lx) linarith
    show ?thesis
    proof (cases "length x + length sp < 8")
      case True
      with cap have "res = Inl (SliceBoundsOutOfRange, e1)" by (simp add: r)
      then show ?thesis using True cnd by simp
    next
      case False
      with cap obtain w0 where w0: "Uint64 (take 8 (x @ sp)) = Inr w0"
        "res = Inr (e1\<lparr>value := Sprintf_d w0\<rparr>)"
        by (auto simp: r)
      have "res = Inr (e\<lparr>key := key r, value := Sprintf_d w0\<rparr>)"
        by (simp add: w0(2) e1_def kb_def)
      then show ?thesis
        using f(1) False cnd w0(1) by (simp only: ar dt) simp
    qed
  qed
  with goal show ?thesis by blast
qed

subsection \<open>The cursor of the reader\<close>

lemma rd_Read_stream:
  "rd_Read n s = ((bs, eo), rest) \<Longrightarrow> concat (map fst s) = bs @ concat (map fst rest)"
  by (cases s) (auto split: if_splits)

lemma unread_fill_loop [simp]: "unread (fill_loop i b) = unread b"
proof (induction i arbitrary: b)
  case 0
  then show ?case by (simp add: unread_def)
next
  case (Suc i)
  obtain bs eo rest where r: "rd_Read (buf_size b - length (buf b)) (rd b) = ((bs, eo), rest)"
    by (metis prod.exhaust)
  have s: "concat (map fst (rd b)) = bs @ concat (map fst rest)"
    using r by (rule rd_Read_stream)
  have u: "unread (b\<lparr>buf := buf b @ bs, rd := rest\<rparr>) = unread b"
    by (simp add: unread_def s)
  show ?case
  proof (cases eo)
    case (Some e)
    with r u show ?thesis by (simp add: Let_def unread_def)
  next
    case None
    have "unread (b\<lparr>rd := rest\<rparr>) = unread b" if "bs = []"
      using u that by simp
    with None r u show ?thesis
      by (simp add: Let_def Suc.IH)
  qed
qed

lemma unread_fill [simp]: "unread (fill b) = unread b"
  by (simp add: fill_def)

lemma unread_peek_loop [simp]: "unread (peek_loop n b) = unread b"
proof (induction n b rule: peek_loop.induct)
  case (1 n b)
  show ?case
  proof (cases "length (buf b) < n \<and> length (buf b) < buf_size b \<and> pending_err b = None")
    case True
    then have "peek_loop n b = peek_loop n (fill b)"
      by (subst peek_loop.simps) simp
    with "1.IH" [OF True] show ?thesis by simp
  next
    case False
    then have "peek_loop n b = b"
      by (subst peek_loop.simps) auto
    then show ?thesis by simp
  qed
qed

lemma Peek_unread:
  assumes "Peek n b = ((bs, e), b')"
  shows "unread b' = unread b" and "e = None \<Longrightarrow> bs = take n (unread b) \<and> length bs = n"
proof -
  define b1 where "b1 = peek_loop n b"
  have u1: "unread b1 = unread b" by (simp add: b1_def)
  show "unread b' = unread b"
    using assms u1 by (auto simp: Peek_def Let_def b1_def [symmetric] unread_def split: if_splits)
  assume "e = None"
  with assms have "bs = take n (buf b1)" "n \<le> length (buf b1)"
    by (auto simp: Peek_def Let_def b1_def [symmetric] split: if_splits)
  then show "bs = take n (unread b) \<and> length bs = n"
    using u1 by (simp add: unread_def [of b1] u1 [symmetric])
qed

lemma discard_step_unread:
  assumes "discard_step remain b = (remain', b2)"
  shows "unread b2 = drop (remain - remain') (unread b)" and "remain' \<le> remain"
    and "remain - remain' \<le> length (unread b)"
proof -
  define b1 where "b1 = (if buf b = [] then fill b else b)"
  define skip where "skip = min (length (buf b1)) remain"
  have u1: "unread b1 = unread b" by (simp add: b1_def)
  have r: "remain' = remain - skip" and b2: "b2 = b1\<lparr>buf := drop skip (buf b1)\<rparr>"
    using assms by (simp_all add: discard_step_def Let_def b1_def skip_def)
  have sk: "skip \<le> remain" "skip \<le> length (buf b1)" by (simp_all add: skip_def)
  then have d: "remain - remain' = skip" by (simp add: r)
  show "remain' \<le> remain" by (simp add: r)
  have "unread b2 = drop skip (unread b1)"
    using sk(2) by (simp add: b2 unread_def)
  then show "unread b2 = drop (remain - remain') (unread b)"
    by (simp add: d u1)
  have "skip \<le> length (unread b1)" using sk(2) by (simp add: unread_def)
  then show "remain - remain' \<le> length (unread b)" by (simp add: d u1)
qed

lemma discard_loop_unread:
  "discard_loop remain b = (r', b') \<Longrightarrow>
     unread b' = drop (remain - r') (unread b) \<and> r' \<le> remain \<and> (r' \<noteq> 0 \<longrightarrow> pending_err b' \<noteq> None)"
proof (induction remain b arbitrary: r' b' rule: discard_loop.induct)
  case (1 remain b)
  obtain remain' b2 where st: "discard_step remain b = (remain', b2)"
    by (metis prod.exhaust)
  note su = discard_step_unread [OF st]
  show ?case
  proof (cases "remain' = 0 \<or> pending_err b2 \<noteq> None")
    case True
    then have "discard_loop remain b = (remain', b2)"
      by (subst discard_loop.simps) (auto simp: st)
    with "1.prems" have "r' = remain'" "b' = b2" by simp_all
    with su True show ?thesis by auto
  next
    case False
    then have "discard_loop remain b = discard_loop remain' b2"
      by (subst discard_loop.simps) (auto simp: st)
    with "1.prems" have dl: "discard_loop remain' b2 = (r', b')" by simp
    have ih: "unread b' = drop (remain' - r') (unread b2) \<and> r' \<le> remain' \<and> (r' \<noteq> 0 \<longrightarrow> pending_err b' \<noteq> None)"
      using "1.IH" [OF st [symmetric] _ _ dl] False by simp
    then show ?thesis
      using su by (auto simp: drop_drop)
  qed
qed

lemma Discard_unread:
  assumes "Discard n b = ((k, None), b')"
  shows "unread b' = drop n (unread b)"
proof (cases "n = 0")
  case True
  with assms show ?thesis by (simp add: Discard_def)
next
  case False
  obtain r' b2 where dl: "discard_loop n b = (r', b2)"
    by (metis prod.exhaust)
  note du = discard_loop_unread [OF dl]
  from assms False dl du have "r' = 0" "b' = b2"
    by (auto simp: Discard_def split: if_splits)
  with du show ?thesis by simp
qed

lemma Reader_Read_unread:
  assumes "Reader_Read n b = ((bs, e), b')"
  shows "unread b = bs @ unread b'"
proof -
  obtain x eo rest where r1: "rd_Read n (rd b) = ((x, eo), rest)"
    by (metis prod.exhaust)
  obtain y eo' rest' where r2: "rd_Read (buf_size b) (rd b) = ((y, eo'), rest')"
    by (metis prod.exhaust)
  note s1 = rd_Read_stream [OF r1] and s2 = rd_Read_stream [OF r2]
  have td: "take n y @ drop n y @ c = y @ c" for c
    by (metis append_assoc append_take_drop_id)
  show ?thesis
    using assms s1 s2
    by (auto simp: Reader_Read_def unread_def r1 r2 td split: if_splits)
qed

lemma stringOperator_Read_unread:
  assumes "stringOperator_Read b = (Ok s, b')"
    and "unread b = le32 v @ vb @ rest" and "length vb = unat v"
  shows "s = string_of_bytes vb \<and> unread b' = rest"
proof -
  obtain header e1 b1 where p: "Peek 4 b = ((header, e1), b1)"
    by (metis prod.exhaust)
  have e1: "e1 = None"
    using assms(1) p by (cases e1) (simp_all add: stringOperator_Read_def)
  have u1: "unread b1 = le32 v @ vb @ rest"
    using Peek_unread(1) [OF p] assms(2) by simp
  have h: "header = le32 v"
    using Peek_unread(2) [OF p e1] assms(2) by simp
  have u32: "Uint32 header = Inr v"
    using Uint32_le32 [of v "[]"] by (simp add: h)
  obtain d e2 b2 where dc: "Discard 4 b1 = ((d, e2), b2)"
    by (metis prod.exhaust)
  have e2: "e2 = None"
    using assms(1) p e1 u32 dc by (cases e2) (simp_all add: stringOperator_Read_def)
  have u2: "unread b2 = vb @ rest"
    using Discard_unread [OF dc [unfolded e2]] u1 by simp
  obtain bs e3 b3 where rr: "Reader_Read (unat v) b2 = ((bs, e3), b3)"
    by (metis prod.exhaust)
  have e3: "e3 = None"
    using assms(1) p e1 u32 dc e2 rr by (cases e3) (simp_all add: stringOperator_Read_def Let_def)
  have res: "length bs = unat v \<and> s = string_of_bytes (copy (replicate (unat v) 0) bs) \<and> b' = b3"
    using assms(1) p e1 u32 dc e2 rr e3
    by (simp add: stringOperator_Read_def Let_def split: if_splits)
  have "vb @ rest = bs @ unread b3"
    using Reader_Read_unread [OF rr] u2 by simp
  then have eq: "bs = vb" "unread b3 = rest"
    using res assms(3) by simp_all
  have "copy (replicate (unat v) 0) vb = vb"
    using copy_zeros [of vb] by (simp add: assms(3))
  then show ?thesis
    using res eq by simp
qed

lemma readValue_string_unread:
  assumes "readValue order late b = (Ok out, b')"
    and "unread b = a4 @ le32 k @ kb @ STRING_TYPE # le32 v @ vb @ rest"
    and "length a4 = 4" and "length kb = unat k" and "length vb = unat v"
  shows "output_value out = string_of_bytes vb \<and> unread b' = rest"
proof -
  obtain header e1 b1 where p: "Peek 8 b = ((header, e1), b1)"
    by (metis prod.exhaust)
  have e1: "e1 = None"
    using assms(1) p by (cases e1) (simp_all add: readValue_def)
  have u1: "unread b1 = a4 @ le32 k @ kb @ STRING_TYPE # le32 v @ vb @ rest"
    using Peek_unread(1) [OF p] assms(2) by simp
  have h: "header = a4 @ le32 k"
    using Peek_unread(2) [OF p e1] assms(2,3) by simp
  have u32: "(if length header < 4 then Inl SliceBoundsOutOfRange else Uint32 (drop 4 header)) = Inr k"
    using Uint32_le32 [of k "[]"] by (simp add: h assms(3))
  obtain d e2 b2 where dc: "Discard (unat k + 8) b1 = ((d, e2), b2)"
    by (metis prod.exhaust)
  have e2: "e2 = None"
    using assms(1) p e1 u32 dc by (cases e2) (simp_all add: readValue_def Let_def)
  have "drop (unat k + 8) ((a4 @ le32 k @ kb) @ STRING_TYPE # le32 v @ vb @ rest)
        = STRING_TYPE # le32 v @ vb @ rest"
    by (subst drop_append) (simp add: assms(3,4))
  then have u2: "unread b2 = STRING_TYPE # le32 v @ vb @ rest"
    using Discard_unread [OF dc [unfolded e2]] u1 by simp
  obtain vt e3 b3 where p1: "Peek 1 b2 = ((vt, e3), b3)"
    by (metis prod.exhaust)
  have e3: "e3 = None"
    using assms(1) p e1 u32 dc e2 p1 by (cases e3) (simp_all add: readValue_def Let_def)
  have u3: "unread b3 = STRING_TYPE # le32 v @ vb @ rest"
    using Peek_unread(1) [OF p1] u2 by simp
  have vt: "vt = [STRING_TYPE]"
    using Peek_unread(2) [OF p1 e3] u2 by simp
  obtain d' e4 b4 where d1: "Discard 1 b3 = ((d', e4), b4)"
    by (metis prod.exhaust)
  have e4: "e4 = None"
    using assms(1) p e1 u32 dc e2 p1 e3 d1 by (cases e4) (simp_all add: readValue_def Let_def)
  have u4: "unread b4 = le32 v @ vb @ rest"
    using Discard_unread [OF d1 [unfolded e4]] u3 by simp
  obtain res b5 where sr: "stringOperator_Read b4 = (res, b5)"
    by (metis prod.exhaust)
  have "res = Ok (output_value out) \<and> b' = b5"
    using assms(1) p e1 u32 dc e2 p1 e3 d1 e4 vt sr
    by (cases res) (auto simp: readValue_def Let_def operator_Read_def)
  then have sr': "stringOperator_Read b4 = (Ok (output_value out), b')"
    using sr by simp
  show ?thesis
    using stringOperator_Read_unread [OF sr' u4 assms(5)] .
qed

lemma encoded_string: "valueType r = STRING_TYPE \<Longrightarrow> encoded r = wire_string r"
  by (simp add: encoded_def Encode_string)

lemma readValue_record:
  assumes "readValue order late b = (Ok out, b')" and "string_record r"
    and "unread b = encoded r @ rest"
  shows "output_value out = value r \<and> unread b' = rest"
proof -
  define k :: uint32 where "k = of_nat (length (key r))"
  define v :: uint32 where "v = of_nat (length (value r))"
  have uk: "unat k = length (key r)" and uv: "unat v = length (value r)"
    using assms(2) by (simp_all add: string_record_def k_def v_def unat_of_nat_len32)
  have w: "unread b = le32 (of_nat (length (key r) + length (value r) + 13)) @ le32 k
             @ bytes_of_string (key r) @ STRING_TYPE # le32 v @ bytes_of_string (value r) @ rest"
    using assms(2,3) by (simp add: string_record_def encoded_string wire_string_def k_def v_def)
  show ?thesis
    using readValue_string_unread [OF assms(1) w] by (simp add: uk uv)
qed

lemma Peek_buffered:
  "n \<le> length (buf b) \<Longrightarrow> n \<le> buf_size b \<Longrightarrow> Peek n b = ((take n (buf b), None), b)"
proof -
  assume a: "n \<le> length (buf b)" "n \<le> buf_size b"
  then have "peek_loop n b = b"
    by (subst peek_loop.simps) simp
  with a show ?thesis by (simp add: Peek_def Let_def)
qed

lemma Discard_buffered:
  "0 < n \<Longrightarrow> n \<le> length (buf b) \<Longrightarrow> Discard n b = ((n, None), b\<lparr>buf := drop n (buf b)\<rparr>)"
proof -
  assume a: "0 < n" "n \<le> length (buf b)"
  then have "buf b \<noteq> []" by auto
  with a have st: "discard_step n b = (0, b\<lparr>buf := drop n (buf b)\<rparr>)"
    by (simp add: discard_step_def Let_def min_def)
  have "discard_loop n b = (0, b\<lparr>buf := drop n (buf b)\<rparr>)"
    by (subst discard_loop.simps) (simp add: st)
  with a show ?thesis by (simp add: Discard_def)
qed

lemma Reader_Read_zero: "buf b \<noteq> [] \<Longrightarrow> Reader_Read 0 b = (([], None), b)"
  by (simp add: Reader_Read_def)

lemma le32_one: "le32 1 = [1, 0, 0, 0]"
  by code_simp

lemma le32_small: "le32 14 = [14, 0, 0, 0]" "le32 0 = [0, 0, 0, 0]"
  by code_simp+

lemma Uint32_one: "Uint32 [1, 0, 0, 0] = Inr 1"
  by code_simp

lemma Uint32_zero: "Uint32 [0, 0, 0, 0] = Inr 0"
  by code_simp

lemma byte_of_char_a: "byte_of_char CHR ''a'' = 97" "byte_of_char CHR ''k'' = 107"
  by (simp_all add: byte_of_char_def)

lemma le32_wrapped: "le32 4294967310 = [14, 0, 0, 0]" "le32 4294967296 = [0, 0, 0, 0]"
proof -
  have "(4294967310 :: uint32) = 14" "(4294967296 :: uint32) = 0"
    by (simp_all add: word_unat_eq_iff)
  then show "le32 4294967310 = [14, 0, 0, 0]" "le32 4294967296 = [0, 0, 0, 0]"
    by (simp_all only: le32_small)
qed

lemma replicate_big: "(97 :: byte) # replicate 4294967295 97 = replicate 4294967296 97"
proof -
  have "(4294967296 :: nat) = Suc 4294967295" by simp
  then show ?thesis by (simp only: replicate_Suc)
qed

lemma string_alice: "string_of_bytes [97, 108, 105, 99, 101] = ''alice''"
  by code_simp

section \<open>The claims\<close>

subsection \<open>C2: an INT64 value that does not parse\<close>

text \<open>
  C2 (as stated: Encode of an INT64 record whose text is not a signed 64-bit decimal
  integer fails with a recoverable error result and does not terminate the process).
  \<^verbatim>\<open>Encode\<close> has no error result: \<^verbatim>\<open>int64Operator.Encode\<close> calls \<^verbatim>\<open>panic(err)\<close>. At the
  record with key "ctr" and the INT64 text "4x2" the text does not parse and the outcome
  is the panic.
\<close>

theorem C2_panic_example:
  "ParseInt ''4x2'' = Inl ErrSyntax \<and>
   Encode \<lparr>key = ''ctr'', valueType = INT64_TYPE, value = ''4x2''\<rparr> = Inl (ParsePanic ErrSyntax)"
  by code_simp

text \<open>
  C2 (amended): for every record whose valueType is INT64 and whose text
  \<^verbatim>\<open>strconv.ParseInt\<close> refuses with the error \<open>err\<close>, \<^verbatim>\<open>Encode\<close> panics with that error and
  returns no buffer.
\<close>

theorem Encode_int64_parse_failure:
  "valueType e = INT64_TYPE \<Longrightarrow> ParseInt (value e) = Inl err \<Longrightarrow> Encode e = Inl (ParsePanic err)"
  by (simp add: Encode_def int64Operator_Encode_eq)

theorem Encode_int64_parse_failure_witness:
  "valueType \<lparr>key = ''k'', valueType = INT64_TYPE, value = ''12a''\<rparr> = INT64_TYPE \<and>
   ParseInt ''12a'' = Inl ErrSyntax \<and>
   Encode \<lparr>key = ''k'', valueType = INT64_TYPE, value = ''12a''\<rparr> = Inl (ParsePanic ErrSyntax)"
proof -
  have p: "ParseInt ''12a'' = Inl ErrSyntax" by code_simp
  show ?thesis
    using Encode_int64_parse_failure [of "\<lparr>key = ''k'', valueType = INT64_TYPE, value = ''12a''\<rparr>" ErrSyntax] p
    by simp
qed

subsection \<open>C3: a tag with no operator\<close>

text \<open>
  C3 (as stated: decoding a buffer whose tag has no registered operator fails with a
  DecodingError). \<^verbatim>\<open>Decode\<close> has no error result. At the 14-byte buffer with key "k" and
  tag 2 the lookup in \<^verbatim>\<open>operators\<close> yields nil and the method call on it panics, after
  the key of the target has been overwritten.
\<close>

theorem C3_nil_operator_example:
  "Decode zero_Entry (buffer [14, 0, 0, 0, 1, 0, 0, 0, 107, 2, 0, 0, 0, 0]) =
     Inl (NilDereference, \<lparr>key = ''k'', valueType = 0, value = []\<rparr>)"
  by code_simp

text \<open>
  C3 (amended): for every input buffer that holds a key length \<open>kl\<close> at offset 4 with
  \<open>kl + 8 < 2 ^ 32\<close>, is longer than \<open>kl + 8\<close> bytes, and whose tag byte at offset
  \<open>8 + kl\<close> has no registered operator, \<^verbatim>\<open>Decode\<close> panics with a nil dereference. It
  stores no value and no type, and it leaves the key read from the buffer in the target.
\<close>

theorem Decode_unregistered_tag:
  assumes "Uint32 (drop 4 (elems input)) = Inr kl"
    and "unat kl + 8 < 2 ^ 32" and "unat kl + 8 < len input"
    and "operators (elems input ! (unat kl + 8)) = None"
  shows "Decode e input =
     Inl (NilDereference, e\<lparr>key := string_of_bytes (take (unat kl) (drop 8 (elems input)))\<rparr>)"
proof -
  have u: "unat (kl + 8) = unat kl + 8"
    using assms(2) by (rule unat_plus8)
  have a: "bindE (slice_from input 4) (\<lambda>s. Uint32 (elems s)) = Inr kl"
    using assms(1,3) by (simp add: slice_from_def len_def)
  have b: "slice_range input 8 (unat kl + 8) =
       Inr \<lparr>elems = take (unat kl) (drop 8 (elems input)),
            spare = drop (unat kl + 8) (elems input @ spare input)\<rparr>"
    using assms(3) by (simp add: slice_range_def cap_def len_def)
  have cz: "copy (replicate (unat kl) 0) (take (unat kl) (drop 8 (elems input)))
            = take (unat kl) (drop 8 (elems input))"
    using assms(3) by (simp add: copy_def len_def min_def)
  have c: "index input (unat kl + 8) = Inr (elems input ! (unat kl + 8))"
    using assms(3) by (simp add: index_def)
  show ?thesis
    unfolding Decode_def Let_def
    by (simp only: a b c u cz assms(4) sum.case option.case slice.simps)
qed

theorem Decode_unregistered_tag_witness:
  "Uint32 (drop 4 (elems (buffer [15, 0, 0, 0, 2, 0, 0, 0, 97, 98, 9, 1, 2, 3, 4]))) = Inr 2 \<and>
   unat (2 :: uint32) + 8 < 2 ^ 32 \<and>
   unat (2 :: uint32) + 8 < len (buffer [15, 0, 0, 0, 2, 0, 0, 0, 97, 98, 9, 1, 2, 3, 4]) \<and>
   operators (elems (buffer [15, 0, 0, 0, 2, 0, 0, 0, 97, 98, 9, 1, 2, 3, 4]) ! (unat (2 :: uint32) + 8)) = None \<and>
   Decode \<lparr>key = ''old'', valueType = 1, value = ''7''\<rparr>
     (buffer [15, 0, 0, 0, 2, 0, 0, 0, 97, 98, 9, 1, 2, 3, 4]) =
     Inl (NilDereference, \<lparr>key = ''ab'', valueType = 1, value = ''7''\<rparr>)"
proof -
  let ?b = "buffer [15, 0, 0, 0, 2, 0, 0, 0, 97, 98, 9, 1, 2, 3, 4]"
  have h1: "Uint32 (drop 4 (elems ?b)) = Inr 2" by code_simp
  have h2: "unat (2 :: uint32) + 8 < 2 ^ 32" by simp
  have h3: "unat (2 :: uint32) + 8 < len ?b" by (simp add: len_def buffer_def)
  have h4: "operators (elems ?b ! (unat (2 :: uint32) + 8)) = None" by code_simp
  have k: "string_of_bytes (take (unat (2 :: uint32)) (drop 8 (elems ?b))) = ''ab''" by code_simp
  show ?thesis
    using Decode_unregistered_tag [OF h1 h2 h3 h4, of "\<lparr>key = ''old'', valueType = 1, value = ''7''\<rparr>"]
      h1 h2 h3 h4
    by (simp only: k) simp
qed

subsection \<open>C7: the size of the encoded buffer\<close>

text \<open>
  C7 (as stated: for every record, Encode returns a buffer of kl + 1 + V + 12 bytes).
  \<^verbatim>\<open>Encode\<close> returns no buffer for a record whose tag has no operator: at the record with
  key "k" and tag 2 the method call on the nil operator panics.
\<close>

theorem C7_no_buffer_example:
  "Encode \<lparr>key = ''k'', valueType = 2, value = ''v''\<rparr> = Inl NilDereference"
  by code_simp

text \<open>
  C7 (amended): for every record for which \<^verbatim>\<open>Encode\<close> returns a buffer, the length of the
  buffer is kl + 1 + V + 12, with V the length of the value for STRING and 8 for INT64;
  its first 4 bytes hold that length little-endian as a \<^verbatim>\<open>uint32\<close>, that is modulo
  \<open>2 ^ 32\<close>; and for an INT64 record the last 4 bytes of the buffer are zero.
\<close>

theorem Encode_length:
  assumes "Encode e = Inr bs"
  shows "length bs = length (key e) + 1 + (if valueType e = INT64_TYPE then 8 else length (value e)) + 12
     \<and> Uint32 bs = Inr (of_nat (length bs))
     \<and> (valueType e = INT64_TYPE \<longrightarrow> drop (length bs - 4) bs = [0, 0, 0, 0])"
  using Encode_cases [OF assms]
  by (auto simp: wire_string_def wire_int64_def Uint32_le32 STRING_TYPE_def INT64_TYPE_def)

theorem Encode_length_witness:
  "Encode \<lparr>key = ''ctr'', valueType = INT64_TYPE, value = ''42''\<rparr> =
     Inr [24, 0, 0, 0, 3, 0, 0, 0, 99, 116, 114, 1, 42, 0, 0, 0, 0, 0, 0, 0, 0, 0, 0, 0] \<and>
   length [24, 0, 0, 0, 3, 0, 0, 0, 99, 116, 114, 1, 42, 0, 0, 0, 0, 0, 0, 0, 0, 0, 0, 0 :: byte] = 3 + 1 + 8 + 12 \<and>
   Uint32 [24, 0, 0, 0, 3, 0, 0, 0, 99, 116, 114, 1, 42, 0, 0, 0, 0, 0, 0, 0, 0, 0, 0, 0] = Inr 24 \<and>
   drop 20 [24, 0, 0, 0, 3, 0, 0, 0, 99, 116, 114, 1, 42, 0, 0, 0, 0, 0, 0, 0, 0, 0, 0, 0 :: byte] = [0, 0, 0, 0]"
proof -
  let ?e = "\<lparr>key = ''ctr'', valueType = INT64_TYPE, value = ''42''\<rparr>"
  let ?b = "[24, 0, 0, 0, 3, 0, 0, 0, 99, 116, 114, 1, 42, 0, 0, 0, 0, 0, 0, 0, 0, 0, 0, 0 :: byte]"
  have h: "Encode ?e = Inr ?b" by code_simp
  show ?thesis
    using Encode_length [OF h] h by simp
qed

subsection \<open>C9: the tag registry\<close>

text \<open>
  C9: \<^verbatim>\<open>ToByte\<close> returns the registered tag for "string" (0) and "int64" (1) and the
  zero byte for any other name; \<^verbatim>\<open>ToType\<close>, in whatever order the map is iterated,
  returns the registered name for the tags 0 and 1 and the empty string for any other
  tag.
\<close>

theorem registry_lookup:
  "ToByte ''string'' = STRING_TYPE \<and> ToByte ''int64'' = INT64_TYPE
   \<and> STRING_TYPE = 0 \<and> INT64_TYPE = 1
   \<and> (name \<noteq> ''string'' \<and> name \<noteq> ''int64'' \<longrightarrow> ToByte name = 0)
   \<and> (iteration_order order \<longrightarrow>
         ToType order 0 = ''string'' \<and> ToType order 1 = ''int64''
         \<and> (tag \<noteq> 0 \<and> tag \<noteq> 1 \<longrightarrow> ToType order tag = []))"
  by (auto simp: ToByte_def typeToByte_def typeToByte_entries_def iteration_order_def ToType_def
      STRING_TYPE_def INT64_TYPE_def)

theorem registry_lookup_witness:
  "ToByte ''float'' = 0 \<and> iteration_order (rev typeToByte_entries)
   \<and> ToType (rev typeToByte_entries) 0 = ''string'' \<and> ToType (rev typeToByte_entries) 1 = ''int64''
   \<and> ToType (rev typeToByte_entries) 7 = []"
  using registry_lookup [of "''float''" "rev typeToByte_entries" 7]
  by (simp add: iteration_order_def)

subsection \<open>C10: Decode never stores the tag\<close>

text \<open>
  C10: whenever \<^verbatim>\<open>Decode\<close> returns, the valueType of the target is what it was before the
  call; so a record decoded into a zero Entry has valueType 0, the STRING tag, whatever
  the tag in the buffer.
\<close>

theorem Decode_keeps_valueType:
  "(Decode e input = Inr e' \<longrightarrow> valueType e' = valueType e) \<and>
   (Decode zero_Entry input = Inr e'' \<longrightarrow> valueType e'' = STRING_TYPE)"
proof -
  have "valueType e'' = STRING_TYPE" if "Decode zero_Entry input = Inr e''"
    using Decode_valueType [OF that] by (simp add: zero_Entry_def STRING_TYPE_def)
  then show ?thesis
    using Decode_valueType by blast
qed

theorem Decode_keeps_valueType_witness:
  "Decode zero_Entry
     (buffer [24, 0, 0, 0, 3, 0, 0, 0, 99, 116, 114, 1, 42, 0, 0, 0, 0, 0, 0, 0, 0, 0, 0, 0]) =
     Inr \<lparr>key = ''ctr'', valueType = 0, value = ''42''\<rparr> \<and>
   valueType \<lparr>key = ''ctr'', valueType = 0, value = ''42''\<rparr> = valueType zero_Entry \<and>
   valueType \<lparr>key = ''ctr'', valueType = 0, value = ''42''\<rparr> = STRING_TYPE"
proof -
  let ?b = "buffer [24, 0, 0, 0, 3, 0, 0, 0, 99, 116, 114, 1, 42, 0, 0, 0, 0, 0, 0, 0, 0, 0, 0, 0]"
  have h: "Decode zero_Entry ?b = Inr \<lparr>key = ''ctr'', valueType = 0, value = ''42''\<rparr>"
    by code_simp
  show ?thesis
    using Decode_keeps_valueType [of zero_Entry ?b "\<lparr>key = ''ctr'', valueType = 0, value = ''42''\<rparr>"
        "\<lparr>key = ''ctr'', valueType = 0, value = ''42''\<rparr>"] h
    by simp
qed

subsection \<open>C1: the round trip\<close>

text \<open>
  C1 (as stated: for every record of type STRING or INT64 with a valid value, decoding
  the encoded buffer yields the same key and the same textual value). The INT64 text
  "+5" is valid for \<^verbatim>\<open>strconv.ParseInt\<close>, which accepts a sign, and it comes back as "5":
  the buffer holds the integer, and \<^verbatim>\<open>Decode\<close> prints it with \<^verbatim>\<open>%d\<close>.
\<close>

theorem C1_plus_sign_example:
  "ParseInt ''+5'' = Inr 5 \<and>
   Encode \<lparr>key = ''k'', valueType = INT64_TYPE, value = ''+5''\<rparr> =
     Inr [22, 0, 0, 0, 1, 0, 0, 0, 107, 1, 5, 0, 0, 0, 0, 0, 0, 0, 0, 0, 0, 0] \<and>
   Decode zero_Entry (buffer [22, 0, 0, 0, 1, 0, 0, 0, 107, 1, 5, 0, 0, 0, 0, 0, 0, 0, 0, 0, 0, 0]) =
     Inr \<lparr>key = ''k'', valueType = 0, value = ''5''\<rparr>"
  by code_simp

text \<open>
  C1 (amended): for every record \<open>r\<close> whose key is shorter than \<open>2 ^ 32 - 8\<close> bytes and
  which is a STRING record with a value shorter than \<open>2 ^ 32\<close> bytes, or an INT64 record
  whose text is what \<^verbatim>\<open>%d\<close> prints for a 64-bit integer, \<^verbatim>\<open>Encode\<close> returns a buffer and
  \<^verbatim>\<open>Decode\<close> of that buffer yields the key and the textual value of \<open>r\<close>; for any other
  INT64 text that parses, it yields the key and what \<^verbatim>\<open>%d\<close> prints for the parsed integer.
\<close>

theorem roundtrip:
  assumes "length (key r) + 8 < 2 ^ 32"
    and "valueType r = STRING_TYPE \<and> length (value r) < 2 ^ 32 \<and> v = value r
       \<or> valueType r = INT64_TYPE \<and> value r = Sprintf_d i \<and> v = value r
       \<or> valueType r = INT64_TYPE \<and> ParseInt (value r) = Inr i \<and> v = Sprintf_d i"
  shows "\<exists>bs. Encode r = Inr bs \<and> Decode e (buffer bs) = Inr (e\<lparr>key := key r, value := v\<rparr>)"
proof -
  consider (s) "valueType r = STRING_TYPE" "length (value r) < 2 ^ 32" "v = value r"
    | (i) "valueType r = INT64_TYPE" "ParseInt (value r) = Inr i" "v = Sprintf_d i"
    using assms(2) ParseInt_Sprintf_d [of i] by auto
  then show ?thesis
  proof cases
    case s
    show ?thesis
      using Decode_wire_string [OF assms(1) s(2), of e "[]" "[]"]
      by (simp add: Encode_string s(1,3) buffer_def)
  next
    case i
    show ?thesis
      using Decode_wire_int64 [OF assms(1), of e i "[]" "[]"]
      by (simp add: Encode_int64 [OF i(1,2)] i(3) buffer_def)
  qed
qed

theorem roundtrip_witness:
  "length (key \<lparr>key = ''user:1'', valueType = STRING_TYPE, value = ''alice''\<rparr>) + 8 < (2 :: nat) ^ 32 \<and>
   valueType \<lparr>key = ''user:1'', valueType = STRING_TYPE, value = ''alice''\<rparr> = STRING_TYPE \<and>
   length (value \<lparr>key = ''user:1'', valueType = STRING_TYPE, value = ''alice''\<rparr>) < (2 :: nat) ^ 32 \<and>
   (\<exists>bs. Encode \<lparr>key = ''user:1'', valueType = STRING_TYPE, value = ''alice''\<rparr> = Inr bs \<and>
      Decode zero_Entry (buffer bs) = Inr \<lparr>key = ''user:1'', valueType = 0, value = ''alice''\<rparr>)"
  using roundtrip [of "\<lparr>key = ''user:1'', valueType = STRING_TYPE, value = ''alice''\<rparr>" "''alice''" undefined zero_Entry]
  by (simp add: zero_Entry_def)

subsection \<open>C8: numeric fidelity\<close>

text \<open>
  C8 (as stated: for every INT64 record whose text is the decimal representation of an
  integer of 64 bits, parsing the text of the decoded record yields that integer). The
  key length is written as a \<^verbatim>\<open>uint32\<close> and \<^verbatim>\<open>Decode\<close> computes \<^verbatim>\<open>kl+8\<close> in \<^verbatim>\<open>uint32\<close>: for a
  key of \<open>2 ^ 32 - 8\<close> bytes the sum wraps around to 0 and \<^verbatim>\<open>input[8:kl+8]\<close> panics, so
  there is no decoded record.
\<close>

theorem C8_long_key_example:
  "ParseInt ''5'' = Inr 5 \<and>
   Encode \<lparr>key = replicate 4294967288 CHR ''a'', valueType = INT64_TYPE, value = ''5''\<rparr> =
     Inr (wire_int64 \<lparr>key = replicate 4294967288 CHR ''a'', valueType = INT64_TYPE, value = ''5''\<rparr> 5) \<and>
   Decode zero_Entry
     (buffer (wire_int64 \<lparr>key = replicate 4294967288 CHR ''a'', valueType = INT64_TYPE, value = ''5''\<rparr> 5)) =
     Inl (SliceBoundsOutOfRange, zero_Entry)"
proof -
  define r where "r = \<lparr>key = replicate 4294967288 CHR ''a'', valueType = INT64_TYPE, value = ''5''\<rparr>"
  have p: "ParseInt ''5'' = Inr 5" by code_simp
  have enc: "Encode r = Inr (wire_int64 r 5)"
    by (rule Encode_int64) (simp_all add: r_def p)
  have k: "(of_nat (length (key r)) :: uint32) + 8 = 0"
    by (simp add: r_def)
  have a: "bindE (slice_from (buffer (wire_int64 r 5)) 4) (\<lambda>s. Uint32 (elems s))
           = Inr (of_nat (length (key r)))"
    by (simp add: slice_from_def len_def buffer_def wire_int64_def Uint32_le32)
  have b: "slice_range (buffer (wire_int64 r 5)) 8 (unat ((of_nat (length (key r)) :: uint32) + 8))
           = Inl SliceBoundsOutOfRange"
    by (simp only: k) (simp add: slice_range_def)
  have dec: "Decode zero_Entry (buffer (wire_int64 r 5)) = Inl (SliceBoundsOutOfRange, zero_Entry)"
    unfolding Decode_def Let_def by (simp only: a b sum.case)
  show ?thesis
    using p enc dec by (simp only: r_def)
qed

text \<open>
  C8 (amended): for every INT64 record whose key is shorter than \<open>2 ^ 32 - 8\<close> bytes and
  whose text is the decimal representation of an integer \<open>v\<close> with
  \<open>- 2 ^ 63 \<le> v < 2 ^ 63\<close>, \<^verbatim>\<open>Encode\<close> returns a buffer, \<^verbatim>\<open>Decode\<close> of it returns a record, and
  parsing the text of that record as a signed 64-bit integer yields \<open>v\<close>.
\<close>

theorem numeric_fidelity:
  assumes "valueType r = INT64_TYPE" and "- (2 ^ 63) \<le> v" and "v < 2 ^ 63"
    and "value r = decimal_int v" and "length (key r) + 8 < 2 ^ 32"
  shows "\<exists>bs e'. Encode r = Inr bs \<and> Decode e (buffer bs) = Inr e' \<and>
           (\<exists>w. ParseInt (value e') = Inr w \<and> sint w = v)"
proof -
  define i :: uint64 where "i = word_of_int v"
  have si: "sint i = v"
    unfolding i_def using assms(2,3) by (rule sint_word_of_int64)
  have val: "value r = Sprintf_d i"
    by (simp add: Sprintf_d_def si assms(4))
  have p: "ParseInt (value r) = Inr i"
    by (simp only: val ParseInt_Sprintf_d)
  have enc: "Encode r = Inr (wire_int64 r i)"
    using assms(1) p by (rule Encode_int64)
  have dec: "Decode e (buffer (wire_int64 r i)) = Inr (e\<lparr>key := key r, value := Sprintf_d i\<rparr>)"
    using Decode_wire_int64 [OF assms(5), of e i "[]" "[]"] by (simp add: buffer_def)
  show ?thesis
    using enc dec si by (auto simp: ParseInt_Sprintf_d)
qed

theorem numeric_fidelity_witness:
  "valueType \<lparr>key = ''ctr'', valueType = INT64_TYPE, value = ''-42''\<rparr> = INT64_TYPE \<and>
   - (2 ^ 63) \<le> (- 42 :: int) \<and> (- 42 :: int) < 2 ^ 63 \<and>
   value \<lparr>key = ''ctr'', valueType = INT64_TYPE, value = ''-42''\<rparr> = decimal_int (- 42) \<and>
   length (key \<lparr>key = ''ctr'', valueType = INT64_TYPE, value = ''-42''\<rparr>) + 8 < (2 :: nat) ^ 32 \<and>
   (\<exists>bs e'. Encode \<lparr>key = ''ctr'', valueType = INT64_TYPE, value = ''-42''\<rparr> = Inr bs \<and>
      Decode zero_Entry (buffer bs) = Inr e' \<and> (\<exists>w. ParseInt (value e') = Inr w \<and> sint w = - 42))"
proof -
  have d: "''-42'' = decimal_int (- 42)" by code_simp
  show ?thesis
    using numeric_fidelity [of "\<lparr>key = ''ctr'', valueType = INT64_TYPE, value = ''-42''\<rparr>" "- 42" zero_Entry] d
    by simp
qed

subsection \<open>C4: truncated buffers\<close>

text \<open>
  C4 (as stated: Decode on every truncation of an encoded buffer to fewer bytes than its
  declared totalSize fails with a recoverable error). The buffer of an INT64 record ends
  in four bytes that \<^verbatim>\<open>Decode\<close> never reads: the 24-byte buffer of the record "ctr" = 42
  cut to 20 bytes decodes to the whole record, with no failure.
\<close>

theorem C4_padding_example:
  "Encode \<lparr>key = ''ctr'', valueType = INT64_TYPE, value = ''42''\<rparr> =
     Inr [24, 0, 0, 0, 3, 0, 0, 0, 99, 116, 114, 1, 42, 0, 0, 0, 0, 0, 0, 0, 0, 0, 0, 0] \<and>
   Decode zero_Entry
     (buffer (take 20 [24, 0, 0, 0, 3, 0, 0, 0, 99, 116, 114, 1, 42, 0, 0, 0, 0, 0, 0, 0, 0, 0, 0, 0])) =
     Inr \<lparr>key = ''ctr'', valueType = 0, value = ''42''\<rparr>"
  by code_simp

text \<open>
  C4 (amended): let \<open>bs\<close> be a buffer that \<^verbatim>\<open>Encode\<close> returns for a record whose key is shorter
  than \<open>2 ^ 32 - 8\<close> bytes (and, for STRING, whose value is shorter than \<open>2 ^ 32\<close> bytes), and
  let the input of \<^verbatim>\<open>Decode\<close> be a slice that holds the first \<open>n < length bs\<close> bytes of \<open>bs\<close>,
  of any capacity, with any bytes \<open>sp\<close> in its backing array beyond its length. Write \<open>idx\<close>
  for the number of bytes that \<^verbatim>\<open>Decode\<close> reads within the length (key length + 9 for INT64,
  key length + 13 for STRING) and \<open>rng\<close> for the end of the last slice it takes (the total
  size for STRING, the total size less the four unread bytes for INT64).

  \<^item> If \<open>n < idx\<close> or the capacity is less than \<open>rng\<close>, \<^verbatim>\<open>Decode\<close> panics with an index or
    slice-bounds run-time error, which is not an error result.
  \<^item> Otherwise \<^verbatim>\<open>Decode\<close> returns normally and reports nothing: the key is the record's key,
    and the value is read from the first \<open>rng\<close> bytes of the backing array, beyond the length
    of the slice. It is what \<^verbatim>\<open>Decode\<close> returns on the whole buffer when those bytes are the
    bytes of \<open>bs\<close> (the reslice \<^verbatim>\<open>bs[:n]\<close>, or an INT64 buffer cut within its last four
    bytes), and a value made of whatever the backing array holds otherwise.
\<close>

theorem truncated_decode:
  assumes "Encode r = Inr bs" and "length (key r) + 8 < 2 ^ 32"
    and "valueType r = STRING_TYPE \<longrightarrow> length (value r) < 2 ^ 32"
    and "n < length bs"
  shows "let kl = length (key r);
             idx = kl + (if valueType r = INT64_TYPE then 9 else 13);
             rng = length bs - (if valueType r = INT64_TYPE then 4 else 0);
             backing = take rng (take n bs @ sp);
             res = Decode e \<lparr>elems = take n bs, spare = sp\<rparr>
         in if idx \<le> n \<and> rng \<le> n + length sp
            then (if valueType r = INT64_TYPE
                  then \<exists>w. Uint64 (drop (kl + 9) backing) = Inr w \<and>
                           res = Inr (e\<lparr>key := key r, value := Sprintf_d w\<rparr>)
                  else res = Inr (e\<lparr>key := key r,
                                   value := string_of_bytes (drop (kl + 13) backing)\<rparr>)) \<and>
                 (backing = take rng bs \<longrightarrow> res = Decode e (buffer bs))
            else bounds_panic res"
proof -
  consider (s) "valueType r = STRING_TYPE" "bs = wire_string r"
    | (i) i where "valueType r = INT64_TYPE" "bs = wire_int64 r i"
    using Encode_cases [OF assms(1)] by blast
  then show ?thesis
  proof cases
    case s
    define kl where "kl = length (key r)"
    define res where "res = Decode e \<lparr>elems = take n bs, spare = sp\<rparr>"
    define backing where "backing = take (length bs) (take n bs @ sp)"
    have ne: "valueType r \<noteq> INT64_TYPE"
      by (simp add: s(1) STRING_TYPE_def INT64_TYPE_def)
    have t: "if kl + 13 \<le> n \<and> length bs \<le> n + length sp
             then res = Inr (e\<lparr>key := key r, value := string_of_bytes (drop (kl + 13) backing)\<rparr>)
             else bounds_panic res"
      using truncated_string_spare [OF assms(2) assms(3) [rule_format, OF s(1)] assms(4) [unfolded s(2)],
          of sp e]
      by (simp only: s(2) kl_def res_def backing_def)
    have whole: "Decode e (buffer bs) = Inr (e\<lparr>key := key r, value := value r\<rparr>)"
      using Decode_wire_string [OF assms(2) assms(3) [rule_format, OF s(1)], of e "[]" "[]"]
      by (simp add: buffer_def s(2))
    have agree: "res = Decode e (buffer bs)"
      if c: "kl + 13 \<le> n \<and> length bs \<le> n + length sp" and b: "backing = take (length bs) bs"
    proof -
      have "drop (kl + 13) backing = bytes_of_string (value r)"
        using drop_wire_string [of r] by (simp add: b s(2) kl_def)
      then show ?thesis using t c by (simp add: whole)
    qed
    have fin: "if kl + 13 \<le> n \<and> length bs \<le> n + length sp
          then res = Inr (e\<lparr>key := key r, value := string_of_bytes (drop (kl + 13) backing)\<rparr>) \<and>
               (backing = take (length bs) bs \<longrightarrow> res = Decode e (buffer bs))
          else bounds_panic res"
      using t agree by presburger
    show ?thesis
      unfolding Let_def using fin [unfolded kl_def res_def backing_def]
      by (simp only: ne if_False diff_zero)
  next
    case i
    define kl where "kl = length (key r)"
    define res where "res = Decode e \<lparr>elems = take n bs, spare = sp\<rparr>"
    define backing where "backing = take (kl + 17) (take n bs @ sp)"
    have l: "length bs = kl + 21"
      by (simp add: i(2) wire_int64_def kl_def)
    have l4: "length bs - 4 = kl + 17" by (simp add: l)
    have t: "if kl + 9 \<le> n \<and> kl + 17 \<le> n + length sp
             then \<exists>w. Uint64 (drop (kl + 9) backing) = Inr w \<and>
                      res = Inr (e\<lparr>key := key r, value := Sprintf_d w\<rparr>)
             else bounds_panic res"
      using truncated_int64_spare [OF assms(2) assms(4) [unfolded i(2)], of sp e]
      by (simp only: i(2) kl_def res_def backing_def)
    have whole: "Decode e (buffer bs) = Inr (e\<lparr>key := key r, value := Sprintf_d i\<rparr>)"
      using Decode_wire_int64 [OF assms(2), of e i "[]" "[]"] by (simp add: buffer_def i(2))
    have agree: "res = Decode e (buffer bs)"
      if c: "kl + 9 \<le> n \<and> kl + 17 \<le> n + length sp" and b: "backing = take (kl + 17) bs"
    proof -
      have d: "drop (kl + 9) backing = le64 i"
        using drop_take_wire_int64 [of r i] by (simp only: b i(2) kl_def)
      from t c obtain w where w: "Uint64 (drop (kl + 9) backing) = Inr w"
        "res = Inr (e\<lparr>key := key r, value := Sprintf_d w\<rparr>)"
        by auto
      have "w = i" using w(1) Uint64_le64 [of i "[]"] by (simp add: d)
      then show ?thesis by (simp add: w(2) whole)
    qed
    have fin: "if kl + 9 \<le> n \<and> kl + 17 \<le> n + length sp
          then (\<exists>w. Uint64 (drop (kl + 9) backing) = Inr w \<and>
                      res = Inr (e\<lparr>key := key r, value := Sprintf_d w\<rparr>)) \<and>
               (backing = take (kl + 17) bs \<longrightarrow> res = Decode e (buffer bs))
          else bounds_panic res"
      using t agree by presburger
    show ?thesis
      unfolding Let_def using fin [unfolded kl_def res_def backing_def]
      by (simp only: i(1) simp_thms if_True l4 [unfolded kl_def])
  qed
qed

theorem truncated_decode_witness:
  "Encode \<lparr>key = ''user:1'', valueType = STRING_TYPE, value = ''alice''\<rparr> =
     Inr [24, 0, 0, 0, 6, 0, 0, 0, 117, 115, 101, 114, 58, 49, 0, 5, 0, 0, 0, 97, 108, 105, 99, 101] \<and>
   length (key \<lparr>key = ''user:1'', valueType = STRING_TYPE, value = ''alice''\<rparr>) + 8 < (2 :: nat) ^ 32 \<and>
   length (value \<lparr>key = ''user:1'', valueType = STRING_TYPE, value = ''alice''\<rparr>) < (2 :: nat) ^ 32 \<and>
   19 < length [24, 0, 0, 0, 6, 0, 0, 0, 117, 115, 101, 114, 58, 49, 0, 5, 0, 0, 0, 97, 108, 105, 99, 101 :: byte] \<and>
   Decode zero_Entry
     \<lparr>elems = [24, 0, 0, 0, 6, 0, 0, 0, 117, 115, 101, 114, 58, 49, 0, 5, 0, 0, 0],
      spare = [97, 108, 105, 99, 101]\<rparr> =
     Inr \<lparr>key = ''user:1'', valueType = 0, value = ''alice''\<rparr> \<and>
   bounds_panic (Decode zero_Entry
     \<lparr>elems = [24, 0, 0, 0, 6, 0, 0, 0, 117, 115, 101, 114, 58, 49, 0, 5, 0, 0, 0],
      spare = [97, 108, 105, 99]\<rparr>) \<and>
   Decode zero_Entry
     \<lparr>elems = [24, 0, 0, 0, 6, 0, 0, 0, 117, 115, 101, 114, 58, 49, 0, 5, 0, 0, 0, 97],
      spare = [0, 0, 0, 0]\<rparr> =
     Inr \<lparr>key = ''user:1'', valueType = 0, value = string_of_bytes [97, 0, 0, 0, 0]\<rparr>"
proof -
  let ?r = "\<lparr>key = ''user:1'', valueType = STRING_TYPE, value = ''alice''\<rparr>"
  let ?b = "[24, 0, 0, 0, 6, 0, 0, 0, 117, 115, 101, 114, 58, 49, 0, 5, 0, 0, 0, 97, 108, 105, 99, 101 :: byte]"
  have h: "Encode ?r = Inr ?b" by code_simp
  have h2: "length (key ?r) + 8 < (2 :: nat) ^ 32" by simp
  have h3: "valueType ?r = STRING_TYPE \<longrightarrow> length (value ?r) < (2 :: nat) ^ 32" by simp
  have h4: "19 < length ?b" by simp
  have ne: "STRING_TYPE \<noteq> INT64_TYPE" by (simp add: STRING_TYPE_def INT64_TYPE_def)
  have a: "Decode zero_Entry
     \<lparr>elems = [24, 0, 0, 0, 6, 0, 0, 0, 117, 115, 101, 114, 58, 49, 0, 5, 0, 0, 0],
      spare = [97, 108, 105, 99, 101]\<rparr> =
     Inr \<lparr>key = ''user:1'', valueType = 0, value = ''alice''\<rparr>"
    using truncated_decode [OF h h2 h3 h4, of "[97, 108, 105, 99, 101]" zero_Entry] ne
    by (simp add: Let_def string_alice zero_Entry_def)
  have b: "bounds_panic (Decode zero_Entry
     \<lparr>elems = [24, 0, 0, 0, 6, 0, 0, 0, 117, 115, 101, 114, 58, 49, 0, 5, 0, 0, 0],
      spare = [97, 108, 105, 99]\<rparr>)"
    using truncated_decode [OF h h2 h3 h4, of "[97, 108, 105, 99]" zero_Entry] ne
    by (simp add: Let_def)
  have h5: "20 < length ?b" by simp
  have c: "Decode zero_Entry
     \<lparr>elems = [24, 0, 0, 0, 6, 0, 0, 0, 117, 115, 101, 114, 58, 49, 0, 5, 0, 0, 0, 97],
      spare = [0, 0, 0, 0]\<rparr> =
     Inr \<lparr>key = ''user:1'', valueType = 0, value = string_of_bytes [97, 0, 0, 0, 0]\<rparr>"
    using truncated_decode [OF h h2 h3 h5, of "[0, 0, 0, 0]" zero_Entry] ne
    by (simp add: Let_def zero_Entry_def)
  show ?thesis
    using h a b c by simp
qed

subsection \<open>C5: the stream read of an INT64 value\<close>

text \<open>
  C5: a reader with nothing buffered, over a source that delivers the eight bytes of the
  integer 42 and two more bytes. \<^verbatim>\<open>int64Operator.Read\<close> returns the text "42", and all
  ten bytes are still unread: it peeks at the eight bytes and never discards them, where
  \<^verbatim>\<open>stringOperator.Read\<close> and \<^verbatim>\<open>readValue\<close> follow each \<^verbatim>\<open>Peek\<close> by a \<^verbatim>\<open>Discard\<close>.
\<close>

theorem int64Operator_Read_example:
  "int64Operator_Read \<lparr>buf = [], buf_size = 4096, pending_err = None,
                        rd = [([42, 0, 0, 0, 0, 0, 0, 0, 9, 9], None)]\<rparr> =
     (Ok ''42'', \<lparr>buf = [42, 0, 0, 0, 0, 0, 0, 0, 9, 9], buf_size = 4096, pending_err = None, rd = []\<rparr>) \<and>
   unread \<lparr>buf = [42, 0, 0, 0, 0, 0, 0, 0, 9, 9], buf_size = 4096, pending_err = None, rd = []\<rparr> =
   unread \<lparr>buf = [], buf_size = 4096, pending_err = None, rd = [([42, 0, 0, 0, 0, 0, 0, 0, 9, 9], None)]\<rparr>"
  by code_simp

subsection \<open>C6: streaming alignment\<close>

text \<open>
  C6 (as stated: for every sequence of concatenated encoded STRING records, each
  successful \<^verbatim>\<open>readValue\<close> leaves the cursor at the first byte of the next record). The
  length of the value is written as a \<^verbatim>\<open>uint32\<close>: for the STRING record with key "k" and
  a value of \<open>2 ^ 32\<close> bytes the length field holds 0. On a reader at the start of that
  record, with the first 15 bytes buffered, \<^verbatim>\<open>readValue\<close> succeeds with the empty value
  and leaves the cursor at the first byte of the value, \<open>2 ^ 32\<close> bytes before the end of
  the record.
\<close>

theorem C6_long_value_example:
  "Encode \<lparr>key = ''k'', valueType = STRING_TYPE, value = replicate 4294967296 CHR ''a''\<rparr> =
     Inr ([14, 0, 0, 0, 1, 0, 0, 0, 107, 0, 0, 0, 0, 0] @ replicate 4294967296 97) \<and>
   unread \<lparr>buf = [14, 0, 0, 0, 1, 0, 0, 0, 107, 0, 0, 0, 0, 0, 97], buf_size = 4096,
           pending_err = None, rd = [(replicate 4294967295 97, None)]\<rparr> =
     [14, 0, 0, 0, 1, 0, 0, 0, 107, 0, 0, 0, 0, 0] @ replicate 4294967296 97 \<and>
   readValue typeToByte_entries 0
       \<lparr>buf = [14, 0, 0, 0, 1, 0, 0, 0, 107, 0, 0, 0, 0, 0, 97], buf_size = 4096,
        pending_err = None, rd = [(replicate 4294967295 97, None)]\<rparr> =
     (Ok \<lparr>output_valueType = ''string'', output_value = []\<rparr>,
      \<lparr>buf = [97], buf_size = 4096, pending_err = None, rd = [(replicate 4294967295 97, None)]\<rparr>) \<and>
   unread \<lparr>buf = [97], buf_size = 4096, pending_err = None, rd = [(replicate 4294967295 97, None)]\<rparr> =
     replicate 4294967296 97"
proof -
  let ?r = "\<lparr>key = ''k'', valueType = STRING_TYPE, value = replicate 4294967296 CHR ''a''\<rparr>"
  let ?b0 = "\<lparr>buf = [14, 0, 0, 0, 1, 0, 0, 0, 107, 0, 0, 0, 0, 0, 97 :: byte], buf_size = 4096,
           pending_err = None, rd = [(replicate 4294967295 (97 :: byte), None)]\<rparr>"
  have w: "wire_string ?r = [14, 0, 0, 0, 1, 0, 0, 0, 107, 0, 0, 0, 0, 0] @ replicate 4294967296 97"
    by (simp add: wire_string_def le32_wrapped le32_one bytes_of_string_def byte_of_char_a STRING_TYPE_def)
  have enc: "Encode ?r = Inr ([14, 0, 0, 0, 1, 0, 0, 0, 107, 0, 0, 0, 0, 0] @ replicate 4294967296 97)"
    by (simp only: Encode_string [of ?r, simplified] w)
  have u0: "unread ?b0 = [14, 0, 0, 0, 1, 0, 0, 0, 107, 0, 0, 0, 0, 0] @ replicate 4294967296 97"
    by (simp add: unread_def replicate_big)
  have u1: "unread \<lparr>buf = [97], buf_size = 4096, pending_err = None, rd = [(replicate 4294967295 97, None)]\<rparr>
            = replicate 4294967296 97"
    by (simp add: unread_def replicate_big)
  have p8: "Peek 8 ?b0 = (([14, 0, 0, 0, 1, 0, 0, 0], None), ?b0)"
    by (subst Peek_buffered) simp_all
  let ?b2 = "\<lparr>buf = [0, 0, 0, 0, 0, 97 :: byte], buf_size = 4096,
           pending_err = None, rd = [(replicate 4294967295 (97 :: byte), None)]\<rparr>"
  have d9: "Discard 9 ?b0 = ((9, None), ?b2)"
    by (subst Discard_buffered) simp_all
  have p1: "Peek 1 ?b2 = (([0], None), ?b2)"
    by (subst Peek_buffered) simp_all
  let ?b4 = "\<lparr>buf = [0, 0, 0, 0, 97 :: byte], buf_size = 4096,
           pending_err = None, rd = [(replicate 4294967295 (97 :: byte), None)]\<rparr>"
  have d1: "Discard 1 ?b2 = ((1, None), ?b4)"
    using Discard_buffered [of 1 ?b2] by simp
  have p4: "Peek 4 ?b4 = (([0, 0, 0, 0], None), ?b4)"
    by (subst Peek_buffered) simp_all
  let ?b5 = "\<lparr>buf = [97 :: byte], buf_size = 4096,
           pending_err = None, rd = [(replicate 4294967295 (97 :: byte), None)]\<rparr>"
  have d4: "Discard 4 ?b4 = ((4, None), ?b5)"
    by (subst Discard_buffered) simp_all
  have r0: "Reader_Read 0 ?b5 = (([], None), ?b5)"
    by (rule Reader_Read_zero) simp
  have sread: "stringOperator_Read ?b4 = (Ok [], ?b5)"
    by (simp add: stringOperator_Read_def p4 Uint32_zero d4 r0 Let_def copy_def string_of_bytes_def)
  have tt: "ToType typeToByte_entries 0 = ''string''"
    by (simp add: ToType_def typeToByte_entries_def STRING_TYPE_def)
  have op0: "operators 0 = Some stringOperator"
    by (simp add: operators_def STRING_TYPE_def INT64_TYPE_def)
  have rv: "readValue typeToByte_entries 0 ?b0 =
     (Ok \<lparr>output_valueType = ''string'', output_value = []\<rparr>, ?b5)"
    by (simp add: readValue_def p8 Uint32_one Let_def d9 p1 [unfolded One_nat_def] d1 [unfolded One_nat_def]
        op0 operator_Read_def sread tt)
  show ?thesis
    using enc u0 rv u1 by simp
qed

text \<open>
  C6 (amended): for every sequence of STRING records whose keys and values are shorter
  than \<open>2 ^ 32\<close> bytes, and every reader whose unread bytes are the concatenated buffers
  of these records followed by anything: after any number of successful consecutive
  calls of \<^verbatim>\<open>readValue\<close> (at most as many as there are records), the unread bytes are
  the buffers of the remaining records followed by the rest, so the cursor is at the
  first byte of the next record's totalSize field and each call has consumed exactly
  one buffer; the values returned are those of the records read.
\<close>

theorem scan_aligned:
  assumes "list_all string_record rs"
    and "unread b = concat (map encoded rs) @ rest"
    and "scan calls b = Some (outs, b')" and "length calls \<le> length rs"
  shows "unread b' = concat (map encoded (drop (length calls) rs)) @ rest \<and>
         map output_value outs = map value (take (length calls) rs)"
  using assms
proof (induction calls arbitrary: b rs outs)
  case Nil
  then show ?case by simp
next
  case (Cons c calls)
  obtain order late where c: "c = (order, late)" by (cases c)
  from Cons.prems(4) obtain r rs' where rs: "rs = r # rs'" by (cases rs) auto
  obtain res b1 where rv: "readValue order late b = (res, b1)" by (metis prod.exhaust)
  from Cons.prems(3) c rv obtain out outs' where
    res: "res = Ok out" and sc: "scan calls b1 = Some (outs', b')" and outs: "outs = out # outs'"
    by (cases res) (auto split: option.splits)
  have sr: "string_record r" and all: "list_all string_record rs'"
    using Cons.prems(1) by (simp_all add: rs)
  have u: "unread b = encoded r @ (concat (map encoded rs') @ rest)"
    using Cons.prems(2) by (simp add: rs)
  from readValue_record [OF rv [unfolded res] sr u]
  have o: "output_value out = value r" and u1: "unread b1 = concat (map encoded rs') @ rest"
    by simp_all
  have len: "length calls \<le> length rs'" using Cons.prems(4) by (simp add: rs)
  from Cons.IH [OF all u1 sc len] show ?case
    by (simp add: rs outs o)
qed

theorem scan_aligned_witness:
  "list_all string_record
     [\<lparr>key = ''user:1'', valueType = STRING_TYPE, value = ''alice''\<rparr>,
      \<lparr>key = ''k'', valueType = STRING_TYPE, value = ''v''\<rparr>] \<and>
   unread \<lparr>buf = [], buf_size = 16, pending_err = None,
           rd = [([24, 0, 0, 0, 6, 0, 0, 0, 117, 115, 101, 114, 58, 49, 0, 5, 0, 0, 0, 97,
                   108, 105, 99, 101, 15, 0, 0, 0, 1, 0, 0, 0, 107, 0, 1, 0, 0, 0, 118, 7, 7], None)]\<rparr> =
     concat (map encoded
       [\<lparr>key = ''user:1'', valueType = STRING_TYPE, value = ''alice''\<rparr>,
        \<lparr>key = ''k'', valueType = STRING_TYPE, value = ''v''\<rparr>]) @ [7, 7] \<and>
   scan [(typeToByte_entries, 0), (rev typeToByte_entries, 0)]
     \<lparr>buf = [], buf_size = 16, pending_err = None,
      rd = [([24, 0, 0, 0, 6, 0, 0, 0, 117, 115, 101, 114, 58, 49, 0, 5, 0, 0, 0, 97,
              108, 105, 99, 101, 15, 0, 0, 0, 1, 0, 0, 0, 107, 0, 1, 0, 0, 0, 118, 7, 7], None)]\<rparr> =
     Some ([\<lparr>output_valueType = ''string'', output_value = ''alice''\<rparr>,
            \<lparr>output_valueType = ''string'', output_value = ''v''\<rparr>],
           \<lparr>buf = [7], buf_size = 16, pending_err = None, rd = [([7], None)]\<rparr>) \<and>
   unread \<lparr>buf = [7], buf_size = 16, pending_err = None, rd = [([7], None)]\<rparr> = [7, 7]"
proof -
  let ?rs = "[\<lparr>key = ''user:1'', valueType = STRING_TYPE, value = ''alice''\<rparr>,
              \<lparr>key = ''k'', valueType = STRING_TYPE, value = ''v''\<rparr>]"
  let ?b = "\<lparr>buf = [], buf_size = 16, pending_err = None,
           rd = [([24, 0, 0, 0, 6, 0, 0, 0, 117, 115, 101, 114, 58, 49, 0, 5, 0, 0, 0, 97,
                   108, 105, 99, 101, 15, 0, 0, 0, 1, 0, 0, 0, 107, 0, 1, 0, 0, 0, 118, 7, 7 :: byte], None)]\<rparr>"
  let ?calls = "[(typeToByte_entries, 0 :: byte), (rev typeToByte_entries, 0)]"
  let ?outs = "[\<lparr>output_valueType = ''string'', output_value = ''alice''\<rparr>,
            \<lparr>output_valueType = ''string'', output_value = ''v''\<rparr>]"
  let ?b' = "\<lparr>buf = [7 :: byte], buf_size = 16, pending_err = None, rd = [([7 :: byte], None)]\<rparr>"
  have h1: "list_all string_record ?rs" by (simp add: string_record_def)
  have h2: "unread ?b = concat (map encoded ?rs) @ [7, 7]" by code_simp
  have h3: "scan ?calls ?b = Some (?outs, ?b')" by code_simp
  have h4: "length ?calls \<le> length ?rs" by simp
  from scan_aligned [OF h1 h2 h3 h4] h1 h2 h3 show ?thesis by simp
qed

end
